theory Spec2Isabelle
  imports Main "HOL-Library.Char_ord" "HOL-Library.List_Lexorder" "HOL-Library.Finite_Map"
begin

section \<open>JavaScript values\<close>

text \<open>
  The chaincode \<^verbatim>\<open>src/fabric/assetTransfer.js\<close> builds plain JavaScript objects, turns them
  into JSON text and keeps that text in the Fabric world state. The values it handles are those of JSON.

  Numbers: a JavaScript number is an IEEE double. Its arithmetic is not modelled: the type \<open>'n\<close>
  of numbers is a parameter, and what the engine does with numbers (reading a literal, \<^verbatim>\<open>Number(s)\<close>,
  writing a number as JSON text, reading a JSON number) is a record of functions on \<open>'n\<close>. The
  values \<open>+0\<close> and \<open>-0\<close>, which \<^verbatim>\<open>===\<close> does not tell apart, count as one number.

  Strings: a \<^typ>\<open>string\<close> is the UTF-8 encoding of a JavaScript string, so a text and the buffer
  \<^verbatim>\<open>Buffer.from(text)\<close> are the same list of bytes, and a buffer is empty iff its text is.
  (A string with a surrogate on its own has no UTF-8 encoding and is not in the model; the
  arguments of a transaction, decoded from bytes, are never such strings.)

  Objects: the association list of the own properties, in the order JavaScript lists them: the
  keys that are array indices first, ascending, then the other keys in insertion order.
\<close>

datatype 'n json =
    JNull
  | JBool bool
  | JNum 'n
  | JStr string
  | JArr "'n json list"
  | JObj "(string \<times> 'n json) list"

definition is_digit :: "char \<Rightarrow> bool" where
  "is_digit c = (48 \<le> (of_char c :: nat) \<and> (of_char c :: nat) \<le> 57)"

definition digit_val :: "char \<Rightarrow> nat" where
  "digit_val c = of_char c - 48"

definition nat_of_digits :: "string \<Rightarrow> nat" where
  "nat_of_digits ds = foldl (\<lambda>a c. 10 * a + digit_val c) 0 ds"

text \<open>
  An array index: the decimal digits, without a leading zero, of an integer up to \<open>2^32 - 2\<close>.
\<close>

definition is_array_index :: "string \<Rightarrow> bool" where
  "is_array_index k =
     (k \<noteq> [] \<and> list_all is_digit k
      \<and> (if hd k = CHR ''0'' then length k = 1 else True)
      \<and> nat_of_digits k < 4294967295)"

text \<open>Whether a new key \<open>k\<close> is listed before the key \<open>k'\<close> an object already has.\<close>

definition listed_before :: "string \<Rightarrow> string \<Rightarrow> bool" where
  "listed_before k k' =
     (is_array_index k
      \<and> (if is_array_index k' then nat_of_digits k < nat_of_digits k' else True))"

text \<open>\<^verbatim>\<open>obj[k]\<close>: the property, or \<open>None\<close> for \<^verbatim>\<open>undefined\<close>.\<close>

definition get_prop :: "(string \<times> 'n json) list \<Rightarrow> string \<Rightarrow> 'n json option" where
  "get_prop fs k = map_of fs k"

text \<open>
  \<^verbatim>\<open>obj[k] = v\<close>: an existing property keeps its place and takes the value; a new one goes
  to its place in the order of the keys.
\<close>

fun replace_prop :: "(string \<times> 'n json) list \<Rightarrow> string \<Rightarrow> 'n json \<Rightarrow> (string \<times> 'n json) list" where
  "replace_prop [] k v = []"
| "replace_prop ((k', v') # fs) k v =
     (if k' = k then (k, v) # fs else (k', v') # replace_prop fs k v)"

fun add_prop :: "(string \<times> 'n json) list \<Rightarrow> string \<Rightarrow> 'n json \<Rightarrow> (string \<times> 'n json) list" where
  "add_prop [] k v = [(k, v)]"
| "add_prop ((k', v') # fs) k v =
     (if listed_before k k' then (k, v) # (k', v') # fs else (k', v') # add_prop fs k v)"

definition set_prop :: "(string \<times> 'n json) list \<Rightarrow> string \<Rightarrow> 'n json \<Rightarrow> (string \<times> 'n json) list" where
  "set_prop fs k v = (if k \<in> set (map fst fs) then replace_prop fs k v else add_prop fs k v)"

text \<open>The keys of every object, at every depth, are pairwise distinct.\<close>

primrec distinct_keys :: "'n json \<Rightarrow> bool" where
  "distinct_keys JNull = True"
| "distinct_keys (JBool b) = True"
| "distinct_keys (JNum n) = True"
| "distinct_keys (JStr s) = True"
| "distinct_keys (JArr xs) = list_all id (map distinct_keys xs)"
| "distinct_keys (JObj fs) =
     (distinct (map fst fs) \<and> list_all snd (map (map_prod id distinct_keys) fs))"

text \<open>
  What a value is as a mapping: an object is the finite map from its field names to what
  its fields are, whatever the order the fields were inserted in.
\<close>

datatype 'n jmap =
    MNull
  | MBool bool
  | MNum 'n
  | MStr string
  | MArr "'n jmap list"
  | MObj "(string, 'n jmap) fmap"

primrec as_mapping :: "'n json \<Rightarrow> 'n jmap" where
  "as_mapping JNull = MNull"
| "as_mapping (JBool b) = MBool b"
| "as_mapping (JNum n) = MNum n"
| "as_mapping (JStr s) = MStr s"
| "as_mapping (JArr xs) = MArr (map as_mapping xs)"
| "as_mapping (JObj fs) = MObj (fmap_of_list (map (map_prod id as_mapping) fs))"

section \<open>The numbers of the engine\<close>

text \<open>
  What the JavaScript engine does with numbers, as far as the chaincode uses it:
  \<^item> \<open>number_literal i\<close>: the value of the integer literal \<open>i\<close> in the source text;
  \<^item> \<open>to_number s\<close>: \<^verbatim>\<open>Number(s)\<close> on a string;
  \<^item> \<open>num_text x\<close>: \<^verbatim>\<open>JSON.stringify(x)\<close>, which is \<^verbatim>\<open>null\<close> for \<open>NaN\<close> and the infinities and the
    decimal text of \<open>x\<close> otherwise;
  \<^item> \<open>num_of_token t\<close>: the value \<^verbatim>\<open>JSON.parse\<close> gives the number token \<open>t\<close>.
\<close>

record 'n numbers =
  number_literal :: "int \<Rightarrow> 'n"
  to_number :: "string \<Rightarrow> 'n"
  num_text :: "'n \<Rightarrow> string"
  num_of_token :: "string \<Rightarrow> 'n"

text \<open>
  The number tokens of JSON: an optional minus sign, an integer part without a leading zero,
  an optional fraction, an optional exponent.
\<close>

definition exponent_part :: "string \<Rightarrow> bool" where
  "exponent_part r =
     (if r = [] then True
      else (hd r = CHR ''e'' \<or> hd r = CHR ''E'')
           \<and> (let r' = tl r;
                    ds = (if r' \<noteq> [] \<and> (hd r' = CHR ''+'' \<or> hd r' = CHR ''-'') then tl r' else r')
                in ds \<noteq> [] \<and> list_all is_digit ds))"

definition fraction_part :: "string \<Rightarrow> bool" where
  "fraction_part r =
     (if r \<noteq> [] \<and> hd r = CHR ''.''
      then takeWhile is_digit (tl r) \<noteq> [] \<and> exponent_part (dropWhile is_digit (tl r))
      else exponent_part r)"

definition json_number :: "string \<Rightarrow> bool" where
  "json_number t =
     (let t1 = (if t \<noteq> [] \<and> hd t = CHR ''-'' then tl t else t);
          ip = takeWhile is_digit t1
      in ip \<noteq> []
         \<and> (if hd ip = CHR ''0'' then length ip = 1 else True)
         \<and> fraction_part (dropWhile is_digit t1))"

text \<open>
  The one law of the engine the proofs use: the text written for a number is \<^verbatim>\<open>null\<close> or a
  JSON number token that is read back as the same number.
\<close>

definition reads_back_numbers :: "'n numbers \<Rightarrow> bool" where
  "reads_back_numbers e =
     (\<forall>x. num_text e x = ''null''
          \<or> (json_number (num_text e x) \<and> num_of_token e (num_text e x) = x))"

text \<open>No number in the value is written \<^verbatim>\<open>null\<close>: none is \<open>NaN\<close> or infinite.\<close>

primrec finite_nums :: "'n numbers \<Rightarrow> 'n json \<Rightarrow> bool" where
  "finite_nums e JNull = True"
| "finite_nums e (JBool b) = True"
| "finite_nums e (JNum n) = (num_text e n \<noteq> ''null'')"
| "finite_nums e (JStr s) = True"
| "finite_nums e (JArr xs) = list_all id (map (finite_nums e) xs)"
| "finite_nums e (JObj fs) = list_all snd (map (map_prod id (finite_nums e)) fs)"

section \<open>JSON text\<close>

subsection \<open>Strings\<close>

definition hexdigit :: "nat \<Rightarrow> char" where
  "hexdigit d = ''0123456789abcdef'' ! d"

definition hexval :: "char \<Rightarrow> nat option" where
  "hexval c =
     (let n = (of_char c :: nat) in
      if 48 \<le> n \<and> n \<le> 57 then Some (n - 48)
      else if 97 \<le> n \<and> n \<le> 102 then Some (n - 87)
      else if 65 \<le> n \<and> n \<le> 70 then Some (n - 55)
      else None)"

text \<open>
  \<^verbatim>\<open>JSON.stringify\<close> on a string: the quote and the backslash are escaped, the control
  characters get their short escape or \<^verbatim>\<open>\u00xx\<close>, everything else is copied.
\<close>

definition escape_char :: "char \<Rightarrow> string" where
  "escape_char c =
     (if c = CHR 0x22 then [CHR 0x5C, CHR 0x22]
      else if c = CHR 0x5C then [CHR 0x5C, CHR 0x5C]
      else if c = CHR 0x08 then [CHR 0x5C, CHR ''b'']
      else if c = CHR 0x0C then [CHR 0x5C, CHR ''f'']
      else if c = CHR 0x0A then [CHR 0x5C, CHR ''n'']
      else if c = CHR 0x0D then [CHR 0x5C, CHR ''r'']
      else if c = CHR 0x09 then [CHR 0x5C, CHR ''t'']
      else if (of_char c :: nat) < 32
        then [CHR 0x5C, CHR ''u'', CHR ''0'', CHR ''0'',
              hexdigit ((of_char c :: nat) div 16), hexdigit ((of_char c :: nat) mod 16)]
      else [c])"

definition quote :: "string \<Rightarrow> string" where
  "quote s = CHR 0x22 # concat (map escape_char s) @ [CHR 0x22]"

definition unescape :: "char \<Rightarrow> char option" where
  "unescape e =
     (if e = CHR 0x22 then Some (CHR 0x22)
      else if e = CHR 0x5C then Some (CHR 0x5C)
      else if e = CHR ''/'' then Some (CHR ''/'')
      else if e = CHR ''b'' then Some (CHR 0x08)
      else if e = CHR ''f'' then Some (CHR 0x0C)
      else if e = CHR ''n'' then Some (CHR 0x0A)
      else if e = CHR ''r'' then Some (CHR 0x0D)
      else if e = CHR ''t'' then Some (CHR 0x09)
      else None)"

definition parse_hex4 :: "string \<Rightarrow> nat option" where
  "parse_hex4 hs =
     (case map hexval hs of
        [Some a, Some b, Some c, Some d] \<Rightarrow> Some (((a * 16 + b) * 16 + c) * 16 + d)
      | _ \<Rightarrow> None)"

text \<open>The UTF-8 bytes of a code point.\<close>

definition utf8 :: "nat \<Rightarrow> string" where
  "utf8 n =
     (if n < 128 then [char_of n]
      else if n < 2048 then [char_of (192 + n div 64), char_of (128 + n mod 64)]
      else if n < 65536
        then [char_of (224 + n div 4096), char_of (128 + n div 64 mod 64), char_of (128 + n mod 64)]
      else [char_of (240 + n div 262144), char_of (128 + n div 4096 mod 64),
            char_of (128 + n div 64 mod 64), char_of (128 + n mod 64)])"

text \<open>
  The characters of a JSON string after its opening quote, up to the closing one; the
  result is the string and the text that follows. A \<^verbatim>\<open>\uXXXX\<close> names a UTF-16 code unit; a
  high surrogate and the low one after it name one code point. A surrogate on its own is a
  string that has no UTF-8 encoding; the model does not have it and refuses the text.
\<close>

function parse_chars :: "string \<Rightarrow> (string \<times> string) option" where
  "parse_chars [] = None"
| "parse_chars (c # cs) =
     (if c = CHR 0x22 then Some ([], cs)
      else if c = CHR 0x5C then
        (case cs of
           [] \<Rightarrow> None
         | e # r \<Rightarrow>
             if e = CHR ''u'' then
               (case parse_hex4 (take 4 r) of
                  None \<Rightarrow> None
                | Some n \<Rightarrow>
                    if n < 55296 \<or> 57344 \<le> n
                    then map_option (apfst ((@) (utf8 n))) (parse_chars (drop 4 r))
                    else if n < 56320 \<and> take 2 (drop 4 r) = [CHR 0x5C, CHR ''u''] then
                      (case parse_hex4 (take 4 (drop 6 r)) of
                         None \<Rightarrow> None
                       | Some m \<Rightarrow>
                           if 56320 \<le> m \<and> m < 57344
                           then map_option
                                  (apfst ((@) (utf8 (65536 + (n - 55296) * 1024 + (m - 56320)))))
                                  (parse_chars (drop 10 r))
                           else None)
                    else None)
             else
               (case unescape e of
                  None \<Rightarrow> None
                | Some d \<Rightarrow> map_option (apfst ((#) d)) (parse_chars r)))
      else if (of_char c :: nat) < 32 then None
      else map_option (apfst ((#) c)) (parse_chars cs))"
  by pat_completeness auto
termination
  by (relation "measure length") auto

subsection \<open>Writing JSON\<close>

fun commas :: "string list \<Rightarrow> string" where
  "commas [] = []"
| "commas [x] = x"
| "commas (x # y # ys) = x @ CHR '','' # commas (y # ys)"

definition member_text :: "string \<times> string \<Rightarrow> string" where
  "member_text kt = quote (fst kt) @ CHR '':'' # snd kt"

text \<open>
  \<^verbatim>\<open>JSON.stringify(v)\<close>: compact text, the properties of an object in their own order.
\<close>

primrec json_text :: "'n numbers \<Rightarrow> 'n json \<Rightarrow> string" where
  "json_text e JNull = ''null''"
| "json_text e (JBool b) = (if b then ''true'' else ''false'')"
| "json_text e (JNum n) = num_text e n"
| "json_text e (JStr s) = quote s"
| "json_text e (JArr xs) = CHR ''['' # commas (map (json_text e) xs) @ '']''"
| "json_text e (JObj fs) =
     CHR ''{'' # commas (map member_text (map (map_prod id (json_text e)) fs)) @ ''}''"

subsection \<open>The canonical encoder\<close>

text \<open>
  Modelled from the spec: the packages \<^verbatim>\<open>sort-keys-recursive\<close> and
  \<^verbatim>\<open>json-stringify-deterministic\<close> are required by the chaincode and are not part of its
  sources. Section 4.1 of the specification: the encoder "recursively sorts all mapping keys at
  every nesting level into ascending alphabetical order (byte/codepoint order), producing a new,
  order-normalized structure", then "serializes the normalized structure using a compact,
  deterministic text encoding". The order on keys is the lexicographic order on bytes.
\<close>

primrec sort_keys :: "'n json \<Rightarrow> 'n json" where
  "sort_keys JNull = JNull"
| "sort_keys (JBool b) = JBool b"
| "sort_keys (JNum n) = JNum n"
| "sort_keys (JStr s) = JStr s"
| "sort_keys (JArr xs) = JArr (map sort_keys xs)"
| "sort_keys (JObj fs) = JObj (sort_key fst (map (map_prod id sort_keys) fs))"

primrec sorted_text :: "'n numbers \<Rightarrow> 'n json \<Rightarrow> string" where
  "sorted_text e JNull = ''null''"
| "sorted_text e (JBool b) = (if b then ''true'' else ''false'')"
| "sorted_text e (JNum n) = num_text e n"
| "sorted_text e (JStr s) = quote s"
| "sorted_text e (JArr xs) = CHR ''['' # commas (map (sorted_text e) xs) @ '']''"
| "sorted_text e (JObj fs) =
     CHR ''{'' # commas (map member_text (sort_key fst (map (map_prod id (sorted_text e)) fs))) @ ''}''"

subsection \<open>Reading JSON\<close>

definition is_ws :: "char \<Rightarrow> bool" where
  "is_ws c = ((of_char c :: nat) \<in> {9, 10, 13, 32})"

definition skip_ws :: "string \<Rightarrow> string" where
  "skip_ws s = dropWhile is_ws s"

text \<open>
  A number is read as the longest run of the characters numbers are made of. The run has to
  be a number token as a whole: no character of a number may follow a value.
\<close>

definition number_char :: "char \<Rightarrow> bool" where
  "number_char c =
     (is_digit c \<or> c = CHR ''-'' \<or> c = CHR ''+'' \<or> c = CHR ''.'' \<or> c = CHR ''e'' \<or> c = CHR ''E'')"

definition parse_number :: "'n numbers \<Rightarrow> string \<Rightarrow> ('n json \<times> string) option" where
  "parse_number e s =
     (let t = takeWhile number_char s;
          rest = dropWhile number_char s
      in if json_number t then Some (JNum (num_of_token e t), rest) else None)"

definition parse_literal :: "'n numbers \<Rightarrow> string \<Rightarrow> ('n json \<times> string) option" where
  "parse_literal e s =
     (if take 4 s = ''true'' then Some (JBool True, drop 4 s)
      else if take 5 s = ''false'' then Some (JBool False, drop 5 s)
      else if take 4 s = ''null'' then Some (JNull, drop 4 s)
      else parse_number e s)"

text \<open>
  A recursive-descent reader of JSON text. The second argument bounds the number of nested
  calls; \<open>parse_json\<close> starts it above the length of the text, which is always enough
  (lemma \<open>parse_value_enough\<close> below): a call that succeeds consumes at least as many
  characters as it makes nested calls. A repeated key takes the last value, as an assignment
  to the property does.
\<close>

fun parse_value :: "'n numbers \<Rightarrow> nat \<Rightarrow> string \<Rightarrow> ('n json \<times> string) option"
and parse_elements ::
  "'n numbers \<Rightarrow> nat \<Rightarrow> 'n json list \<Rightarrow> string \<Rightarrow> ('n json list \<times> string) option"
and parse_members ::
  "'n numbers \<Rightarrow> nat \<Rightarrow> (string \<times> 'n json) list \<Rightarrow> string
     \<Rightarrow> ((string \<times> 'n json) list \<times> string) option"
where
  "parse_value e 0 s = None"
| "parse_value e (Suc n) s =
     (case skip_ws s of
        [] \<Rightarrow> None
      | c # cs \<Rightarrow>
          if c = CHR ''{'' then
            (case skip_ws cs of
               [] \<Rightarrow> None
             | d # ds \<Rightarrow>
                 if d = CHR ''}'' then Some (JObj [], ds)
                 else map_option (apfst JObj) (parse_members e n [] (d # ds)))
          else if c = CHR ''['' then
            (case skip_ws cs of
               [] \<Rightarrow> None
             | d # ds \<Rightarrow>
                 if d = CHR '']'' then Some (JArr [], ds)
                 else map_option (apfst JArr) (parse_elements e n [] (d # ds)))
          else if c = CHR 0x22 then map_option (apfst JStr) (parse_chars cs)
          else parse_literal e (c # cs))"
| "parse_elements e 0 acc s = None"
| "parse_elements e (Suc n) acc s =
     (case parse_value e n s of
        None \<Rightarrow> None
      | Some (v, r) \<Rightarrow>
          (case skip_ws r of
             [] \<Rightarrow> None
           | c # cs \<Rightarrow>
               if c = CHR '','' then parse_elements e n (acc @ [v]) cs
               else if c = CHR '']'' then Some (acc @ [v], cs)
               else None))"
| "parse_members e 0 acc s = None"
| "parse_members e (Suc n) acc s =
     (case skip_ws s of
        [] \<Rightarrow> None
      | c # cs \<Rightarrow>
          if c = CHR 0x22 then
            (case parse_chars cs of
               None \<Rightarrow> None
             | Some (k, r) \<Rightarrow>
                 (case skip_ws r of
                    [] \<Rightarrow> None
                  | d # ds \<Rightarrow>
                      if d = CHR '':'' then
                        (case parse_value e n ds of
                           None \<Rightarrow> None
                         | Some (v, r2) \<Rightarrow>
                             (case skip_ws r2 of
                                [] \<Rightarrow> None
                              | x # xs \<Rightarrow>
                                  if x = CHR '','' then parse_members e n (set_prop acc k v) xs
                                  else if x = CHR ''}'' then Some (set_prop acc k v, xs)
                                  else None))
                      else None))
          else None)"

text \<open>\<^verbatim>\<open>JSON.parse(s)\<close>; \<open>None\<close> is the \<^verbatim>\<open>SyntaxError\<close> it throws.\<close>

definition parse_json :: "'n numbers \<Rightarrow> string \<Rightarrow> 'n json option" where
  "parse_json e s =
     (case parse_value e (Suc (length s)) s of
        None \<Rightarrow> None
      | Some (v, r) \<Rightarrow> if skip_ws r = [] then Some v else None)"

text \<open>
  What \<^verbatim>\<open>JSON.parse(JSON.stringify(v))\<close> is (lemma \<open>parse_json_text\<close> below): \<open>v\<close> with
  \<^verbatim>\<open>null\<close> for the numbers that are written so, and the keys of each object in the order of a
  newly built object.
\<close>

primrec read_back :: "'n numbers \<Rightarrow> 'n json \<Rightarrow> 'n json" where
  "read_back e JNull = JNull"
| "read_back e (JBool b) = JBool b"
| "read_back e (JNum n) = (if num_text e n = ''null'' then JNull else JNum n)"
| "read_back e (JStr s) = JStr s"
| "read_back e (JArr xs) = JArr (map (read_back e) xs)"
| "read_back e (JObj fs) =
     JObj (foldl (\<lambda>acc kv. set_prop acc (fst kv) (snd kv)) [] (map (map_prod id (read_back e)) fs))"

section \<open>What the chaincode imports\<close>

text \<open>
  The functions the file takes from its environment: the globals \<^verbatim>\<open>Number\<close>, \<^verbatim>\<open>JSON.parse\<close>
  and \<^verbatim>\<open>JSON.stringify\<close> of the engine, the two packages it requires, and the value of an integer
  literal of its text. The operations of the contract are written over this record, so what
  is proved of them for every environment holds whatever these functions are.
  \<open>JSON_parse\<close> gives \<open>None\<close> where \<^verbatim>\<open>JSON.parse\<close> throws.
\<close>

record 'n env =
  Number :: "string \<Rightarrow> 'n"
  literal :: "int \<Rightarrow> 'n"
  JSON_parse :: "string \<Rightarrow> 'n json option"
  JSON_stringify :: "'n json \<Rightarrow> string"
  sortKeysRecursive :: "'n json \<Rightarrow> 'n json"
  stringify :: "'n json \<Rightarrow> string"

text \<open>
  \<^verbatim>\<open>stringify(sortKeysRecursive(record))\<close>, the text every write hands to \<^verbatim>\<open>Buffer.from\<close>.
\<close>

definition encode :: "'n env \<Rightarrow> 'n json \<Rightarrow> string" where
  "encode h record = stringify h (sortKeysRecursive h record)"

text \<open>The environment over an engine with the numbers \<open>e\<close>: JSON as defined above.\<close>

definition js :: "'n numbers \<Rightarrow> 'n env" where
  "js e =
     \<lparr>Number = to_number e,
      literal = number_literal e,
      JSON_parse = parse_json e,
      JSON_stringify = json_text e,
      sortKeysRecursive = sort_keys,
      stringify = sorted_text e\<rparr>"

section \<open>The world state\<close>

text \<open>
  Modelled from the spec: \<^verbatim>\<open>ctx.stub\<close> belongs to the Fabric runtime, not to the chaincode.
  Section 4.2 of the specification: \<^verbatim>\<open>Get\<close> gives the bytes or an empty indicator, \<^verbatim>\<open>Put\<close>
  overwrites any existing value of the key, \<^verbatim>\<open>Delete\<close> removes the key, and \<^verbatim>\<open>RangeScan\<close> with
  empty bounds gives every pair, keys in ascending lexicographic order, as a sequence that is pulled
  entry by entry and has to be closed explicitly.

  The state is the list of its pairs, in ascending key order. Each operation of the contract is
  one transaction, run on the state the previous one left. The store of the model does not
  fail; a failure of the host's store is outside it.
\<close>

type_synonym world = "(string \<times> string) list"

definition getState :: "world \<Rightarrow> string \<Rightarrow> string" where
  "getState w k = (case map_of w k of None \<Rightarrow> [] | Some v \<Rightarrow> v)"

fun putState :: "world \<Rightarrow> string \<Rightarrow> string \<Rightarrow> world" where
  "putState [] k v = [(k, v)]"
| "putState ((k', v') # w) k v =
     (if k < k' then (k, v) # (k', v') # w
      else if k = k' then (k, v) # w
      else (k', v') # putState w k v)"

definition deleteState :: "world \<Rightarrow> string \<Rightarrow> world" where
  "deleteState w k = filter (\<lambda>kv. fst kv \<noteq> k) w"

record iterator =
  pending :: "(string \<times> string) list"
  closed :: bool

definition getStateByRange :: "world \<Rightarrow> iterator" where
  "getStateByRange w = \<lparr>pending = w, closed = False\<rparr>"

text \<open>\<^verbatim>\<open>iterator.next()\<close>: \<open>None\<close> is \<^verbatim>\<open>{done: true}\<close>.\<close>

definition iterator_next :: "iterator \<Rightarrow> (string \<times> string) option \<times> iterator" where
  "iterator_next it =
     (case pending it of
        [] \<Rightarrow> (None, it)
      | kv # rest \<Rightarrow> (Some kv, it\<lparr>pending := rest\<rparr>))"

definition iterator_close :: "iterator \<Rightarrow> iterator" where
  "iterator_close it = it\<lparr>closed := True\<rparr>"

section \<open>The contract \<^verbatim>\<open>AssetTransfer\<close>\<close>

text \<open>
  Every method takes the environment \<open>h\<close> of the file and the transaction context; the context
  is the world state behind \<^verbatim>\<open>ctx.stub\<close>. A method that writes gives back the state it leaves.
  A thrown \<^verbatim>\<open>Error\<close> is a value: the two messages of the contract, and the two errors
  JavaScript itself raises in \<^verbatim>\<open>TransferAsset\<close>. The arguments of a transaction reach the
  contract as strings.
\<close>

datatype error =
    AlreadyExists string
  | NotFound string
  | SyntaxError
  | TypeError

text \<open>The object literal \<^verbatim>\<open>{ID, Color, Size, Owner, AppraisedValue}\<close>, in the order written.\<close>

definition asset_literal ::
  "string \<Rightarrow> string \<Rightarrow> 'n json \<Rightarrow> string \<Rightarrow> 'n json \<Rightarrow> (string \<times> 'n json) list" where
  "asset_literal id' color size' owner appraisedValue =
     [(''ID'', JStr id'), (''Color'', JStr color), (''Size'', size'),
      (''Owner'', JStr owner), (''AppraisedValue'', appraisedValue)]"

definition assets :: "'n env \<Rightarrow> (string \<times> 'n json) list list" where
  "assets h =
     [asset_literal ''asset1'' ''blue'' (JNum (literal h 5)) ''Tomoko'' (JNum (literal h 300)),
      asset_literal ''asset2'' ''red'' (JNum (literal h 5)) ''Brad'' (JNum (literal h 400)),
      asset_literal ''asset3'' ''green'' (JNum (literal h 10)) ''Jin Soo'' (JNum (literal h 500)),
      asset_literal ''asset4'' ''yellow'' (JNum (literal h 10)) ''Max'' (JNum (literal h 600)),
      asset_literal ''asset5'' ''black'' (JNum (literal h 15)) ''Adriana'' (JNum (literal h 700)),
      asset_literal ''asset6'' ''white'' (JNum (literal h 15)) ''Michel'' (JNum (literal h 800))]"

text \<open>\<^verbatim>\<open>asset.ID\<close> as the key handed to \<^verbatim>\<open>putState\<close>.\<close>

definition asset_ID :: "(string \<times> 'n json) list \<Rightarrow> string" where
  "asset_ID asset = (case get_prop asset ''ID'' of Some (JStr k) \<Rightarrow> k | _ \<Rightarrow> [])"

text \<open>The body of the loop of \<^verbatim>\<open>InitLedger\<close>, and the loop.\<close>

definition InitLedger_put :: "'n env \<Rightarrow> world \<Rightarrow> (string \<times> 'n json) list \<Rightarrow> world" where
  "InitLedger_put h ctx asset0 =
     (let asset = set_prop asset0 ''docType'' (JStr ''asset'')
      in putState ctx (asset_ID asset) (encode h (JObj asset)))"

definition InitLedger :: "'n env \<Rightarrow> world \<Rightarrow> (error + unit) \<times> world" where
  "InitLedger h ctx = (Inr (), foldl (InitLedger_put h) ctx (assets h))"

definition AssetExists :: "world \<Rightarrow> string \<Rightarrow> bool" where
  "AssetExists ctx id' = (let assetJSON = getState ctx id' in 0 < length assetJSON)"

definition CreateAsset ::
  "'n env \<Rightarrow> world \<Rightarrow> string \<Rightarrow> string \<Rightarrow> string \<Rightarrow> string \<Rightarrow> string
     \<Rightarrow> (error + string) \<times> world" where
  "CreateAsset h ctx id' color size' owner appraisedValue =
     (if AssetExists ctx id' then (Inl (AlreadyExists id'), ctx)
      else
        let asset = JObj (asset_literal id' color (JNum (Number h size')) owner
                            (JNum (Number h appraisedValue)))
        in (Inr (JSON_stringify h asset), putState ctx id' (encode h asset)))"

definition ReadAsset :: "world \<Rightarrow> string \<Rightarrow> error + string" where
  "ReadAsset ctx id' =
     (let assetJSON = getState ctx id'
      in if length assetJSON = 0 then Inl (NotFound id') else Inr assetJSON)"

definition UpdateAsset ::
  "'n env \<Rightarrow> world \<Rightarrow> string \<Rightarrow> string \<Rightarrow> string \<Rightarrow> string \<Rightarrow> string
     \<Rightarrow> (error + unit) \<times> world" where
  "UpdateAsset h ctx id' color size' owner appraisedValue =
     (if \<not> AssetExists ctx id' then (Inl (NotFound id'), ctx)
      else
        let updatedAsset = JObj (asset_literal id' color (JStr size') owner (JStr appraisedValue))
        in (Inr (), putState ctx id' (encode h updatedAsset)))"

definition DeleteAsset :: "world \<Rightarrow> string \<Rightarrow> (error + unit) \<times> world" where
  "DeleteAsset ctx id' =
     (if \<not> AssetExists ctx id' then (Inl (NotFound id'), ctx)
      else (Inr (), deleteState ctx id'))"

text \<open>
  \<^verbatim>\<open>TransferAsset\<close> returns \<^verbatim>\<open>asset.Owner\<close> as it was, \<open>None\<close> when the property is
  \<^verbatim>\<open>undefined\<close>. The file is in strict mode: reading a property of \<^verbatim>\<open>null\<close> and assigning one
  on a number, a string or a boolean throw a \<^verbatim>\<open>TypeError\<close>. On an array the assignment adds a
  property that is no element, so the array is written back as it is.
\<close>

definition TransferAsset ::
  "'n env \<Rightarrow> world \<Rightarrow> string \<Rightarrow> string \<Rightarrow> (error + 'n json option) \<times> world" where
  "TransferAsset h ctx id' newOwner =
     (case ReadAsset ctx id' of
        Inl e \<Rightarrow> (Inl e, ctx)
      | Inr assetString \<Rightarrow>
          (case JSON_parse h assetString of
             None \<Rightarrow> (Inl SyntaxError, ctx)
           | Some (JObj asset) \<Rightarrow>
               let oldOwner = get_prop asset ''Owner'';
                   asset' = set_prop asset ''Owner'' (JStr newOwner)
               in (Inr oldOwner, putState ctx id' (encode h (JObj asset')))
           | Some (JArr xs) \<Rightarrow> (Inr None, putState ctx id' (encode h (JArr xs)))
           | Some _ \<Rightarrow> (Inl TypeError, ctx)))"

text \<open>
  The loop of \<^verbatim>\<open>GetAllAssets\<close>: pull the next entry until the iterator is done, decode each
  value, keep the text itself when decoding throws. The iterator is returned as the loop
  leaves it.
\<close>

function GetAllAssets_loop :: "'n env \<Rightarrow> iterator \<Rightarrow> 'n json list \<Rightarrow> 'n json list \<times> iterator" where
  "GetAllAssets_loop h it allResults =
     (case iterator_next it of
        (None, it') \<Rightarrow> (allResults, it')
      | (Some result, it') \<Rightarrow>
          let strValue = snd result;
              rec = (case JSON_parse h strValue of Some r \<Rightarrow> r | None \<Rightarrow> JStr strValue)
          in GetAllAssets_loop h it' (allResults @ [rec]))"
  by pat_completeness auto
termination
  by (relation "measure (\<lambda>(h, it, allResults). length (pending it))")
     (auto simp: iterator_next_def split: list.splits)

declare GetAllAssets_loop.simps [simp del]

definition GetAllAssets :: "'n env \<Rightarrow> world \<Rightarrow> (error + string) \<times> iterator" where
  "GetAllAssets h ctx =
     (let iterator = getStateByRange ctx;
          (allResults, iterator') = GetAllAssets_loop h iterator []
      in (Inr (JSON_stringify h (JArr allResults)), iterator'))"

section \<open>An engine for the examples\<close>

text \<open>
  The examples below are run on an engine whose numbers are the integers and \<open>NaN\<close>.
  \<^verbatim>\<open>Number\<close> on a string: an optionally signed run of decimal digits is that integer, the
  empty string is \<open>0\<close>, every other string is \<open>NaN\<close>. An integer is written in decimal
  digits and \<open>NaN\<close> as \<^verbatim>\<open>null\<close>; a number token that is an integer is read as that
  integer. This is what JavaScript does on the strings and numbers of the examples: decimal
  integers below \<open>2^53\<close> and words that are no numeric literal. It is not JavaScript elsewhere
  (white space around a literal, fractions, exponents, radix prefixes, \<^verbatim>\<open>Infinity\<close>, integers
  beyond \<open>2^53\<close>); the theorems below are about every engine, and only their examples are
  run on this one.
\<close>

datatype jsnum = NaN | IntNum int

definition digit_char :: "nat \<Rightarrow> char" where
  "digit_char d = char_of (48 + d)"

text \<open>The decimal digits of a natural number, most significant first.\<close>

fun digits :: "nat \<Rightarrow> string" where
  "digits n = (if n < 10 then [digit_char n] else digits (n div 10) @ [digit_char (n mod 10)])"

declare digits.simps [simp del]

fun int_text :: "jsnum \<Rightarrow> string" where
  "int_text NaN = ''null''"
| "int_text (IntNum n) = (if n < 0 then CHR ''-'' # digits (nat (- n)) else digits (nat n))"

definition signed_digits :: "bool \<Rightarrow> string \<Rightarrow> jsnum" where
  "signed_digits neg ds =
     (if ds \<noteq> [] \<and> list_all is_digit ds
      then IntNum (if neg then - int (nat_of_digits ds) else int (nat_of_digits ds))
      else NaN)"

definition int_of_string :: "string \<Rightarrow> jsnum" where
  "int_of_string s =
     (if s = [] then IntNum 0
      else if hd s = CHR ''-'' then signed_digits True (tl s)
      else if hd s = CHR ''+'' then signed_digits False (tl s)
      else signed_digits False s)"

definition int_of_token :: "string \<Rightarrow> jsnum" where
  "int_of_token t =
     (if t \<noteq> [] \<and> hd t = CHR ''-'' then signed_digits True (tl t) else signed_digits False t)"

definition integers :: "jsnum numbers" where
  "integers =
     \<lparr>number_literal = IntNum,
      to_number = int_of_string,
      num_text = int_text,
      num_of_token = int_of_token\<rparr>"

section \<open>Stores of records\<close>

text \<open>
  Every write of the contract stores the encoding of an object. \<open>all_records\<close> says that each
  value of the store decodes to an object whose numbers are finite; it holds of the empty store
  and every operation keeps it (lemmas \<open>all_records_InitLedger\<close> to \<open>all_records_TransferAsset\<close>
  below).
\<close>

definition is_record_text :: "'n numbers \<Rightarrow> string \<Rightarrow> bool" where
  "is_record_text e t =
     (case parse_json e t of Some (JObj asset) \<Rightarrow> finite_nums e (JObj asset) | _ \<Rightarrow> False)"

definition all_records :: "'n numbers \<Rightarrow> world \<Rightarrow> bool" where
  "all_records e ctx = list_all (\<lambda>kv. is_record_text e (snd kv)) ctx"

section \<open>Measures used in the proofs\<close>

text \<open>
  A bound on the nested calls the reader makes on the text of a value: one for the value, one
  for each element or member, and those of the parts.
\<close>

primrec parse_cost :: "'n json \<Rightarrow> nat" where
  "parse_cost JNull = 1"
| "parse_cost (JBool b) = 1"
| "parse_cost (JNum n) = 1"
| "parse_cost (JStr s) = 1"
| "parse_cost (JArr xs) = Suc (sum_list (map parse_cost xs) + length xs)"
| "parse_cost (JObj fs) = Suc (sum_list (map snd (map (map_prod id parse_cost) fs)) + length fs)"

text \<open>What may follow a value inside JSON text: the end, a comma or a closing bracket.\<close>

definition ends_value :: "string \<Rightarrow> bool" where
  "ends_value rest = (rest = [] \<or> hd rest \<in> {CHR '','', CHR '']'', CHR ''}''})"

section \<open>The canonical encoder is deterministic\<close>

lemma map_of_fields: "map_of (map (map_prod id f) fs) k = map_option f (map_of fs k)"
  by (induction fs) auto

lemma fields_set_subset:
  assumes dx: "distinct (map fst fs)" and dy: "distinct (map fst gs)"
    and m: "\<And>k. map_option g (map_of fs k) = map_option g (map_of gs k)"
    and ih: "\<And>k v w. (k, v) \<in> set fs \<Longrightarrow> (k, w) \<in> set gs \<Longrightarrow> g v = g w \<Longrightarrow> f v = f w"
  shows "set (map (map_prod id f) fs) \<subseteq> set (map (map_prod id f) gs)"
proof
  fix p assume "p \<in> set (map (map_prod id f) fs)"
  then obtain k v where kv: "(k, v) \<in> set fs" and p: "p = (k, f v)" by auto
  from kv dx have "map_of fs k = Some v" by simp
  with m[of k] obtain w where w: "map_of gs k = Some w" and gw: "g v = g w"
    by (cases "map_of gs k") auto
  from w have kw: "(k, w) \<in> set gs" by (rule map_of_SomeD)
  from ih[OF kv kw gw] have "f v = f w" .
  with kw p show "p \<in> set (map (map_prod id f) gs)" by force
qed

lemma sort_key_fields_eq:
  assumes dx: "distinct (map fst xs)" and dy: "distinct (map fst ys)" and s: "set xs = set ys"
  shows "sort_key fst xs = sort_key fst (ys :: (string \<times> 'a) list)"
proof (rule map_sorted_distinct_set_unique[where f = fst])
  from dx have "inj_on fst (set xs)" by (simp add: distinct_map)
  with s show "inj_on fst (set (sort_key fst xs) \<union> set (sort_key fst ys))" by simp
  show "sorted (map fst (sort_key fst xs))" by simp
  show "sorted (map fst (sort_key fst ys))" by simp
  from dx show "distinct (map fst (sort_key fst xs))" by (simp add: distinct_map)
  from dy show "distinct (map fst (sort_key fst ys))" by (simp add: distinct_map)
  from s show "set (sort_key fst xs) = set (sort_key fst ys)" by simp
qed

lemma map_fst_fields: "map fst (map (map_prod id f) fs) = map fst fs"
  by simp

lemma distinct_keys_field:
  "distinct_keys (JObj fs) \<Longrightarrow> (k, v) \<in> set fs \<Longrightarrow> distinct_keys v"
  by (auto simp: list_all_iff)

lemma distinct_keys_elem:
  "distinct_keys (JArr xs) \<Longrightarrow> v \<in> set xs \<Longrightarrow> distinct_keys v"
  by (auto simp: list_all_iff)

lemma sort_keys_mapping:
  "distinct_keys A \<Longrightarrow> distinct_keys B \<Longrightarrow> as_mapping A = as_mapping B \<Longrightarrow>
     sort_keys A = sort_keys B"
proof (induction A arbitrary: B)
  case (JArr xs)
  from JArr.prems(3) obtain ys where B: "B = JArr ys" by (cases B) simp_all
  from JArr.prems(3) B have m: "map as_mapping xs = map as_mapping ys" by simp
  then have len: "length xs = length ys" by (rule map_eq_imp_length_eq)
  have "sort_keys (xs ! i) = sort_keys (ys ! i)" if i: "i < length xs" for i
  proof -
    from i have x: "xs ! i \<in> set xs" by simp
    from i len have y: "ys ! i \<in> set ys" by simp
    from i len have "as_mapping (xs ! i) = map as_mapping xs ! i"
      and "as_mapping (ys ! i) = map as_mapping ys ! i" by simp_all
    with m have e: "as_mapping (xs ! i) = as_mapping (ys ! i)" by simp
    show ?thesis
      by (rule JArr.IH[OF x distinct_keys_elem[OF JArr.prems(1) x]
            distinct_keys_elem[OF JArr.prems(2)[unfolded B] y] e])
  qed
  with len have "map sort_keys xs = map sort_keys ys"
    by (simp add: list_eq_iff_nth_eq)
  with B show ?case by simp
next
  case (JObj fs)
  from JObj.prems(3) obtain gs where B: "B = JObj gs" by (cases B) simp_all
  from JObj.prems(1) have dx: "distinct (map fst fs)" by simp
  from JObj.prems(2) B have dy: "distinct (map fst gs)" by simp
  from JObj.prems(3) B
  have "fmlookup (fmap_of_list (map (map_prod id as_mapping) fs))
      = fmlookup (fmap_of_list (map (map_prod id as_mapping) gs))" by simp
  then have m: "map_option as_mapping (map_of fs k) = map_option as_mapping (map_of gs k)" for k
    by (simp add: fmlookup_of_list fun_eq_iff map_of_fields)
  have ih: "sort_keys v = sort_keys w"
    if "(k, v) \<in> set fs" "(k', w) \<in> set gs" "as_mapping v = as_mapping w" for k k' v w
  proof -
    from that(1) have s: "v \<in> Basic_BNFs.snds (k, v)" by simp
    show ?thesis
      by (rule JObj.IH[OF that(1) s distinct_keys_field[OF JObj.prems(1) that(1)]
            distinct_keys_field[OF JObj.prems(2)[unfolded B] that(2)] that(3)])
  qed
  have "set (map (map_prod id sort_keys) fs) = set (map (map_prod id sort_keys) gs)"
  proof
    show "set (map (map_prod id sort_keys) fs) \<subseteq> set (map (map_prod id sort_keys) gs)"
      by (rule fields_set_subset[OF dx dy m]) (rule ih)
    show "set (map (map_prod id sort_keys) gs) \<subseteq> set (map (map_prod id sort_keys) fs)"
      by (rule fields_set_subset[OF dy dx m[symmetric]]) (rule ih[symmetric], assumption+, simp)
  qed
  then have "sort_key fst (map (map_prod id sort_keys) fs)
           = sort_key fst (map (map_prod id sort_keys) gs)"
    using dx dy by (intro sort_key_fields_eq) simp_all
  with B show ?case by simp
next
  case JNull
  then show ?case by (cases B) simp_all
next
  case (JBool b)
  then show ?case by (cases B) simp_all
next
  case (JNum n)
  then show ?case by (cases B) simp_all
next
  case (JStr s)
  then show ?case by (cases B) simp_all
qed


lemma js_simps [simp]:
  "Number (js e) = to_number e"
  "literal (js e) = number_literal e"
  "JSON_parse (js e) = parse_json e"
  "JSON_stringify (js e) = json_text e"
  "sortKeysRecursive (js e) = sort_keys"
  "stringify (js e) = sorted_text e"
  by (simp_all add: js_def)

lemma encode_js: "encode (js e) v = sorted_text e (sort_keys v)"
  by (simp add: encode_def)

text \<open>
  Claim C1 (canonical encoding determinism). Two records that are equal as mappings from field
  names to values, whatever the order their fields were inserted in and at whatever depth,
  are written to the store as the same bytes, on every engine. The encoder is the one of
  section 4.1 of the specification; the keys of a JavaScript object are distinct.
\<close>

theorem encode_deterministic:
  "distinct_keys A \<Longrightarrow> distinct_keys B \<Longrightarrow> as_mapping A = as_mapping B \<Longrightarrow>
     encode (js e) A = encode (js e) B"
  unfolding encode_js by (rule arg_cong[where f = "sorted_text e"]) (rule sort_keys_mapping)

text \<open>The example of the specification: \<^verbatim>\<open>{Owner:"Brad", ID:"asset2"}\<close> and \<^verbatim>\<open>{ID:"asset2", Owner:"Brad"}\<close>.\<close>

theorem encode_deterministic_witness:
  \<open>distinct_keys (JObj [(''Owner'', JStr ''Brad''), (''ID'', JStr ''asset2'')] :: jsnum json)
   \<and> distinct_keys (JObj [(''ID'', JStr ''asset2''), (''Owner'', JStr ''Brad'')] :: jsnum json)
   \<and> as_mapping (JObj [(''Owner'', JStr ''Brad''), (''ID'', JStr ''asset2'')] :: jsnum json)
     = as_mapping (JObj [(''ID'', JStr ''asset2''), (''Owner'', JStr ''Brad'')])
   \<and> encode (js integers) (JObj [(''Owner'', JStr ''Brad''), (''ID'', JStr ''asset2'')])
     = encode (js integers) (JObj [(''ID'', JStr ''asset2''), (''Owner'', JStr ''Brad'')])
   \<and> encode (js integers) (JObj [(''Owner'', JStr ''Brad''), (''ID'', JStr ''asset2'')])
     = ''{"ID":"asset2","Owner":"Brad"}''\<close>
proof -
  have d1: "distinct_keys (JObj [(''Owner'', JStr ''Brad''), (''ID'', JStr ''asset2'')] :: jsnum json)"
    by simp
  have d2: "distinct_keys (JObj [(''ID'', JStr ''asset2''), (''Owner'', JStr ''Brad'')] :: jsnum json)"
    by simp
  have m: "as_mapping (JObj [(''Owner'', JStr ''Brad''), (''ID'', JStr ''asset2'')] :: jsnum json)
     = as_mapping (JObj [(''ID'', JStr ''asset2''), (''Owner'', JStr ''Brad'')])"
    by (simp, rule fmap_ext) auto
  have t: \<open>encode (js integers) (JObj [(''Owner'', JStr ''Brad''), (''ID'', JStr ''asset2'')])
     = ''{"ID":"asset2","Owner":"Brad"}''\<close>
    by code_simp
  show ?thesis
    by (intro conjI) (rule d1, rule d2, rule m, rule encode_deterministic[OF d1 d2 m], rule t)
qed

section \<open>The world state under the contract\<close>

lemma map_of_putState: "map_of (putState w k v) k' = (if k' = k then Some v else map_of w k')"
  by (induction w) auto

lemma getState_putState: "getState (putState w k v) k' = (if k' = k then v else getState w k')"
  by (simp add: getState_def map_of_putState)

text \<open>\<open>putState\<close> and \<open>deleteState\<close> keep the keys of the store ascending and distinct.\<close>

lemma set_fst_putState: "set (map fst (putState w k v)) = insert k (set (map fst w))"
proof (induction w)
  case Nil
  show ?case by simp
next
  case (Cons a w)
  obtain k' v' where a: "a = (k', v')" by (cases a)
  from Cons show ?case unfolding a by (auto split: if_splits)
qed

lemma sorted_putState:
  "sorted (map fst w) \<Longrightarrow> distinct (map fst w) \<Longrightarrow>
     sorted (map fst (putState w k v)) \<and> distinct (map fst (putState w k v))"
proof (induction w)
  case Nil
  show ?case by simp
next
  case (Cons a w)
  obtain k' v' where a: "a = (k', v')" by (cases a)
  from Cons.prems a have lt: "\<forall>x \<in> set (map fst w). k' < x"
    by (auto simp: less_le)
  from Cons.prems have "sorted (map fst w)" "distinct (map fst w)" by simp_all
  with Cons.IH have ih: "sorted (map fst (putState w k v))" "distinct (map fst (putState w k v))"
    by simp_all
  show ?case
  proof (cases "k < k'")
    case True
    with Cons.prems a lt show ?thesis by (auto simp: less_le)
  next
    case False
    show ?thesis
    proof (cases "k = k'")
      case True
      with Cons.prems a show ?thesis by simp
    next
      case ne: False
      with False have "k' < k" by simp
      with lt have "\<forall>x \<in> set (map fst (putState w k v)). k' < x"
        unfolding set_fst_putState by simp
      with ih False ne a show ?thesis by (auto simp: less_le)
    qed
  qed
qed

lemma sorted_deleteState:
  "sorted (map fst w) \<Longrightarrow> distinct (map fst w) \<Longrightarrow>
     sorted (map fst (deleteState w k)) \<and> distinct (map fst (deleteState w k))"
  by (simp add: deleteState_def sorted_map sorted_wrt_filter distinct_map_filter)

lemma sorted_text_JObj_nonempty: "sorted_text e (JObj fs) \<noteq> []"
  by simp

lemma encode_JObj_nonempty: "encode (js e) (JObj fs) \<noteq> []"
  by (simp add: encode_js)

text \<open>
  Claim C3 (duplicate create rejected). When the store holds a non-empty value under the
  identifier, \<^verbatim>\<open>CreateAsset\<close> throws "already exists" and writes nothing: the state, and so the
  value under the identifier, is the one before the call.
\<close>

theorem CreateAsset_duplicate_rejected:
  "AssetExists ctx id' \<Longrightarrow>
     CreateAsset h ctx id' color size' owner appraisedValue = (Inl (AlreadyExists id'), ctx)
     \<and> getState (snd (CreateAsset h ctx id' color size' owner appraisedValue)) id' = getState ctx id'"
  by (simp add: CreateAsset_def)

text \<open>Creating \<^verbatim>\<open>a1\<close> twice: the second call fails and the bytes of the first write stay.\<close>

theorem CreateAsset_duplicate_rejected_witness:
  \<open>AssetExists (snd (CreateAsset (js integers) [] ''a1'' ''blue'' ''5'' ''Tomoko'' ''300'')) ''a1''
   \<and> CreateAsset (js integers) (snd (CreateAsset (js integers) [] ''a1'' ''blue'' ''5'' ''Tomoko'' ''300''))
         ''a1'' ''red'' ''7'' ''Brad'' ''400''
       = (Inl (AlreadyExists ''a1''),
          snd (CreateAsset (js integers) [] ''a1'' ''blue'' ''5'' ''Tomoko'' ''300''))
   \<and> getState (snd (CreateAsset (js integers)
                      (snd (CreateAsset (js integers) [] ''a1'' ''blue'' ''5'' ''Tomoko'' ''300''))
                      ''a1'' ''red'' ''7'' ''Brad'' ''400'')) ''a1''
       = ''{"AppraisedValue":300,"Color":"blue","ID":"a1","Owner":"Tomoko","Size":5}''\<close>
proof -
  have h: "AssetExists (snd (CreateAsset (js integers) [] ''a1'' ''blue'' ''5'' ''Tomoko'' ''300'')) ''a1''"
    by code_simp
  have b: \<open>getState (snd (CreateAsset (js integers) [] ''a1'' ''blue'' ''5'' ''Tomoko'' ''300'')) ''a1''
       = ''{"AppraisedValue":300,"Color":"blue","ID":"a1","Owner":"Tomoko","Size":5}''\<close>
    by code_simp
  from CreateAsset_duplicate_rejected[OF h, of "js integers" "''red''" "''7''" "''Brad''" "''400''"] h b
  show ?thesis by simp
qed

text \<open>
  Claim C7 (update on an absent key). When the store holds no non-empty value under the
  identifier, \<^verbatim>\<open>UpdateAsset\<close> throws "does not exist" and writes nothing: the asset is still
  absent afterwards and the keys of the store are those before the call.
\<close>

theorem UpdateAsset_absent:
  "\<not> AssetExists ctx id' \<Longrightarrow>
     UpdateAsset h ctx id' color size' owner appraisedValue = (Inl (NotFound id'), ctx)
     \<and> \<not> AssetExists (snd (UpdateAsset h ctx id' color size' owner appraisedValue)) id'
     \<and> map fst (snd (UpdateAsset h ctx id' color size' owner appraisedValue)) = map fst ctx"
  by (simp add: UpdateAsset_def)

theorem UpdateAsset_absent_witness:
  "\<not> AssetExists [] ''nope''
   \<and> UpdateAsset (js integers) [] ''nope'' ''blue'' ''5'' ''Tomoko'' ''300'' = (Inl (NotFound ''nope''), [])
   \<and> map fst (snd (UpdateAsset (js integers) [] ''nope'' ''blue'' ''5'' ''Tomoko'' ''300'')) = []"
proof -
  have h: "\<not> AssetExists [] ''nope''" by (simp add: AssetExists_def getState_def)
  from UpdateAsset_absent[OF h, of "js integers" "''blue''" "''5''" "''Tomoko''" "''300''"] h
  show ?thesis by simp
qed

section \<open>Listing the assets\<close>

text \<open>The loop appends one record for each pending entry and leaves the iterator exhausted.\<close>

lemma GetAllAssets_loop_eq:
  "GetAllAssets_loop h it acc =
     (acc @ map (\<lambda>kv. case JSON_parse h (snd kv) of Some r \<Rightarrow> r | None \<Rightarrow> JStr (snd kv)) (pending it),
      it\<lparr>pending := []\<rparr>)"
proof (induction "pending it" arbitrary: it acc)
  case Nil
  then show ?case
    by (subst GetAllAssets_loop.simps) (simp add: iterator_next_def)
next
  case (Cons kv rest)
  from Cons.hyps(2) have p: "pending it = kv # rest" by simp
  have "rest = pending (it\<lparr>pending := rest\<rparr>)" by simp
  from Cons.hyps(1)[OF this] show ?case
    by (subst GetAllAssets_loop.simps) (simp add: iterator_next_def p Let_def)
qed

text \<open>
  Claim C8 (per-entry decode degradation). Whatever the store holds and whatever \<^verbatim>\<open>JSON.parse\<close>
  and \<^verbatim>\<open>JSON.stringify\<close> are, \<^verbatim>\<open>GetAllAssets\<close> returns normally, with one entry for each pair
  of the scan, in scan order: the decoded value where \<^verbatim>\<open>JSON.parse\<close> succeeds, and the text
  itself, as a string, where it throws.
\<close>

theorem GetAllAssets_decode_fallback:
  "fst (GetAllAssets h ctx) =
     Inr (JSON_stringify h (JArr (map (\<lambda>kv. case JSON_parse h (snd kv) of
                                          Some r \<Rightarrow> r
                                        | None \<Rightarrow> JStr (snd kv)) ctx)))"
  by (simp add: GetAllAssets_def GetAllAssets_loop_eq getStateByRange_def)

text \<open>
  Claim C9 (scan resource release), as the code has it. \<^verbatim>\<open>GetAllAssets\<close> pulls the iterator
  until it is done and returns; nothing in it calls \<^verbatim>\<open>close\<close>, so on every run the iterator is
  left exhausted and open.
\<close>

theorem GetAllAssets_never_closes:
  "snd (GetAllAssets h ctx) = \<lparr>pending = [], closed = False\<rparr>"
  by (simp add: GetAllAssets_def GetAllAssets_loop_eq getStateByRange_def)

text \<open>After \<^verbatim>\<open>InitLedger\<close> on the empty store, the listing leaves its iterator open.\<close>

theorem GetAllAssets_close_counterexample:
  "\<not> closed (snd (GetAllAssets (js integers) (snd (InitLedger (js integers) []))))"
  by (simp add: GetAllAssets_def GetAllAssets_loop_eq getStateByRange_def)

section \<open>Reading back what was written\<close>

text \<open>
  \<^verbatim>\<open>JSON.parse\<close> on the text \<^verbatim>\<open>JSON.stringify\<close> wrote for a value gives \<open>read_back\<close> of the
  value; the steps follow the grammar: strings, numbers, then values with their elements and
  members.
\<close>

subsection \<open>Strings\<close>

lemma hexval_hexdigit: "d < 16 \<Longrightarrow> hexval (hexdigit d) = Some d"
proof -
  assume "d < 16"
  then consider "d = 0" | "d = 1" | "d = 2" | "d = 3" | "d = 4" | "d = 5" | "d = 6" | "d = 7"
    | "d = 8" | "d = 9" | "d = 10" | "d = 11" | "d = 12" | "d = 13" | "d = 14" | "d = 15"
    by atomize_elim arith
  then show ?thesis
    by cases (simp_all add: hexval_def hexdigit_def)
qed

lemma parse_hex4_control:
  "n < 32 \<Longrightarrow> parse_hex4 [CHR ''0'', CHR ''0'', hexdigit (n div 16), hexdigit (n mod 16)] = Some n"
proof -
  assume n: "n < 32"
  then have a: "n div 16 < 16" and b: "n mod 16 < 16" by auto
  have z: "hexval CHR ''0'' = Some 0" by (simp add: hexval_def)
  show ?thesis
    by (simp add: parse_hex4_def z hexval_hexdigit[OF a] hexval_hexdigit[OF b])
qed


lemma parse_chars_backslash:
  "unescape e = Some d \<Longrightarrow> e \<noteq> CHR ''u'' \<Longrightarrow>
     parse_chars (CHR 0x5C # e # t) = map_option (apfst ((#) d)) (parse_chars t)"
  by simp

lemma parse_chars_plain:
  "c \<noteq> CHR 0x22 \<Longrightarrow> c \<noteq> CHR 0x5C \<Longrightarrow> \<not> (of_char c :: nat) < 32 \<Longrightarrow>
     parse_chars (c # t) = map_option (apfst ((#) c)) (parse_chars t)"
  by simp

lemma utf8_ascii: "n < 128 \<Longrightarrow> utf8 n = [char_of n]"
  by (simp add: utf8_def)

lemma parse_chars_u00:
  "n < 32 \<Longrightarrow>
     parse_chars (CHR 0x5C # CHR ''u'' # CHR ''0'' # CHR ''0'' # hexdigit (n div 16) # hexdigit (n mod 16) # t)
       = map_option (apfst ((#) (char_of n))) (parse_chars t)"
proof -
  assume n: "n < 32"
  have a: "(@) [char_of n] = (#) (char_of n)" by (rule ext) simp
  from n parse_hex4_control[OF n] show ?thesis by (simp add: utf8_ascii a)
qed

lemma parse_chars_escape_char:
  "parse_chars (escape_char c @ t) = map_option (apfst ((#) c)) (parse_chars t)"
proof -
  consider (quote) "c = CHR 0x22" | (backslash) "c = CHR 0x5C" | (b) "c = CHR 0x08"
    | (f) "c = CHR 0x0C" | (n) "c = CHR 0x0A" | (r) "c = CHR 0x0D" | (t) "c = CHR 0x09"
    | (control) "c \<notin> {CHR 0x22, CHR 0x5C, CHR 0x08, CHR 0x0C, CHR 0x0A, CHR 0x0D, CHR 0x09}"
        "(of_char c :: nat) < 32"
    | (plain) "c \<notin> {CHR 0x22, CHR 0x5C, CHR 0x08, CHR 0x0C, CHR 0x0A, CHR 0x0D, CHR 0x09}"
        "\<not> (of_char c :: nat) < 32"
    by blast
  then show ?thesis
  proof cases
    case quote
    then have "escape_char c = [CHR 0x5C, CHR 0x22]" by (simp add: escape_char_def)
    with quote show ?thesis by (simp add: parse_chars_backslash unescape_def del: parse_chars.simps)
  next
    case backslash
    then have "escape_char c = [CHR 0x5C, CHR 0x5C]" by (simp add: escape_char_def)
    with backslash show ?thesis by (simp add: parse_chars_backslash unescape_def del: parse_chars.simps)
  next
    case b
    then have "escape_char c = [CHR 0x5C, CHR ''b'']" by (simp add: escape_char_def)
    with b show ?thesis by (simp add: parse_chars_backslash unescape_def del: parse_chars.simps)
  next
    case f
    then have "escape_char c = [CHR 0x5C, CHR ''f'']" by (simp add: escape_char_def)
    with f show ?thesis by (simp add: parse_chars_backslash unescape_def del: parse_chars.simps)
  next
    case n
    then have "escape_char c = [CHR 0x5C, CHR ''n'']" by (simp add: escape_char_def)
    with n show ?thesis by (simp add: parse_chars_backslash unescape_def del: parse_chars.simps)
  next
    case r
    then have "escape_char c = [CHR 0x5C, CHR ''r'']" by (simp add: escape_char_def)
    with r show ?thesis by (simp add: parse_chars_backslash unescape_def del: parse_chars.simps)
  next
    case t
    then have "escape_char c = [CHR 0x5C, CHR ''t'']" by (simp add: escape_char_def)
    with t show ?thesis by (simp add: parse_chars_backslash unescape_def del: parse_chars.simps)
  next
    case control
    then have "escape_char c = [CHR 0x5C, CHR ''u'', CHR ''0'', CHR ''0'',
              hexdigit ((of_char c :: nat) div 16), hexdigit ((of_char c :: nat) mod 16)]"
      by (simp add: escape_char_def)
    with control(2) show ?thesis
      by (simp add: parse_chars_u00 del: parse_chars.simps)
  next
    case plain
    then have "escape_char c = [c]" by (simp add: escape_char_def)
    with plain show ?thesis by (simp add: parse_chars_plain del: parse_chars.simps)
  qed
qed

lemma parse_chars_escaped:
  "parse_chars (concat (map escape_char s) @ CHR 0x22 # rest) = Some (s, rest)"
proof (induction s)
  case Nil
  show ?case by simp
next
  case (Cons c s)
  then show ?case by (simp add: parse_chars_escape_char del: parse_chars.simps)
qed

lemma parse_chars_quote: "parse_chars (tl (quote s) @ rest) = Some (s, rest)"
  by (simp add: quote_def parse_chars_escaped del: parse_chars.simps)

subsection \<open>Numbers\<close>

lemma digits_number_chars: "list_all is_digit ds \<Longrightarrow> list_all number_char ds"
  by (simp add: list_all_iff number_char_def)

lemma exponent_part_chars: "exponent_part r \<Longrightarrow> list_all number_char r"
proof (cases r)
  case Nil
  then show ?thesis by simp
next
  case (Cons c r')
  assume "exponent_part r"
  with Cons have c: "c = CHR ''e'' \<or> c = CHR ''E''"
    and d: "list_all is_digit (if r' \<noteq> [] \<and> (hd r' = CHR ''+'' \<or> hd r' = CHR ''-'') then tl r' else r')"
    by (simp_all add: exponent_part_def Let_def)
  have "list_all number_char r'"
  proof (cases "r' \<noteq> [] \<and> (hd r' = CHR ''+'' \<or> hd r' = CHR ''-'')")
    case True
    then obtain s ds where r': "r' = s # ds" and s: "s = CHR ''+'' \<or> s = CHR ''-''"
      by (cases r') auto
    with d True have "list_all number_char ds" by (simp add: digits_number_chars)
    with r' s show ?thesis by (auto simp: number_char_def)
  next
    case False
    with d show ?thesis by (simp add: digits_number_chars)
  qed
  with c Cons show ?thesis by (auto simp: number_char_def)
qed

lemma split_digits: "list_all number_char (takeWhile is_digit s) "
  by (rule digits_number_chars) (simp add: list_all_iff, meson set_takeWhileD)

lemma fraction_part_chars: "fraction_part r \<Longrightarrow> list_all number_char r"
proof (cases "r \<noteq> [] \<and> hd r = CHR ''.''")
  case True
  assume f: "fraction_part r"
  from True obtain r' where r: "r = CHR ''.'' # r'" by (cases r) auto
  with f have "exponent_part (dropWhile is_digit r')" by (simp add: fraction_part_def)
  then have "list_all number_char (dropWhile is_digit r')" by (rule exponent_part_chars)
  with split_digits[of r'] have "list_all number_char (takeWhile is_digit r' @ dropWhile is_digit r')"
    by (simp only: list_all_append simp_thms)
  with r show ?thesis by (simp add: number_char_def)
next
  case False
  assume "fraction_part r"
  with False have "exponent_part r" by (simp add: fraction_part_def split: if_splits)
  then show ?thesis by (rule exponent_part_chars)
qed

lemma json_number_chars: "json_number t \<Longrightarrow> list_all number_char t"
proof -
  assume j: "json_number t"
  define t1 where "t1 = (if t \<noteq> [] \<and> hd t = CHR ''-'' then tl t else t)"
  from j have "fraction_part (dropWhile is_digit t1)"
    by (simp add: json_number_def Let_def t1_def)
  then have "list_all number_char (dropWhile is_digit t1)" by (rule fraction_part_chars)
  with split_digits[of t1] have "list_all number_char (takeWhile is_digit t1 @ dropWhile is_digit t1)"
    by (simp only: list_all_append simp_thms)
  then have t1: "list_all number_char t1" by simp
  show ?thesis
  proof (cases "t \<noteq> [] \<and> hd t = CHR ''-''")
    case True
    then obtain r where "t = CHR ''-'' # r" by (cases t) auto
    with t1 show ?thesis by (simp add: t1_def number_char_def)
  next
    case False
    with t1 show ?thesis by (simp add: t1_def)
  qed
qed

lemma json_number_head:
  "json_number t \<Longrightarrow> \<exists>c cs. t = c # cs \<and> (is_digit c \<or> c = CHR ''-'')"
proof -
  assume j: "json_number t"
  define t1 where "t1 = (if t \<noteq> [] \<and> hd t = CHR ''-'' then tl t else t)"
  from j have ne: "takeWhile is_digit t1 \<noteq> []"
    by (simp add: json_number_def Let_def t1_def)
  then obtain c cs where t1: "t1 = c # cs" and c: "is_digit c"
    by (cases t1) (auto split: if_splits)
  show ?thesis
  proof (cases "t \<noteq> [] \<and> hd t = CHR ''-''")
    case True
    then show ?thesis by (cases t) auto
  next
    case False
    with t1 c show ?thesis by (auto simp: t1_def)
  qed
qed

lemma number_text:
  assumes "reads_back_numbers e" "num_text e x \<noteq> ''null''"
  shows "json_number (num_text e x)" "num_of_token e (num_text e x) = x"
  using assms unfolding reads_back_numbers_def by blast+

lemma not_number_char_ends: "ends_value rest \<Longrightarrow> rest \<noteq> [] \<Longrightarrow> \<not> number_char (hd rest)"
  by (auto simp: ends_value_def number_char_def is_digit_def)

lemma takeWhile_token:
  "list_all number_char t \<Longrightarrow> ends_value rest \<Longrightarrow> takeWhile number_char (t @ rest) = t"
  using not_number_char_ends[of rest]
  by (cases rest) (simp_all add: list_all_iff takeWhile_append2)

lemma dropWhile_token:
  "list_all number_char t \<Longrightarrow> ends_value rest \<Longrightarrow> dropWhile number_char (t @ rest) = rest"
  using not_number_char_ends[of rest]
  by (cases rest) (simp_all add: list_all_iff dropWhile_append2)

lemma parse_number_text:
  assumes e: "reads_back_numbers e" and f: "num_text e x \<noteq> ''null''" and r: "ends_value rest"
  shows "parse_number e (num_text e x @ rest) = Some (JNum x, rest)"
proof -
  note j = number_text[OF e f]
  from json_number_chars[OF j(1)] have c: "list_all number_char (num_text e x)" .
  show ?thesis
    by (simp add: parse_number_def takeWhile_token[OF c r] dropWhile_token[OF c r] j)
qed

lemma parse_literal_text:
  assumes e: "reads_back_numbers e" and f: "num_text e x \<noteq> ''null''" and r: "ends_value rest"
  shows "parse_literal e (num_text e x @ rest) = Some (JNum x, rest)"
proof -
  from json_number_head[OF number_text(1)[OF e f]] obtain c cs where
    t: "num_text e x = c # cs" and c: "is_digit c \<or> c = CHR ''-''" by blast
  from c have "c \<noteq> CHR ''t''" "c \<noteq> CHR ''f''" "c \<noteq> CHR ''n''"
    by (auto simp: is_digit_def)
  then have "parse_literal e (c # cs @ rest) = parse_number e (c # cs @ rest)"
    by (simp add: parse_literal_def)
  with parse_number_text[OF e f r] t show ?thesis by simp
qed

subsection \<open>Values\<close>

lemma skip_ws_Cons: "\<not> is_ws c \<Longrightarrow> skip_ws (c # s) = c # s"
  by (simp add: skip_ws_def)

lemma num_text_head:
  assumes e: "reads_back_numbers e"
  shows "\<exists>c cs. num_text e x = c # cs \<and> \<not> is_ws c
           \<and> c \<notin> {CHR ''{'', CHR ''['', CHR 0x22, CHR '']'', CHR ''}''}"
proof (cases "num_text e x = ''null''")
  case True
  then show ?thesis by (simp add: is_ws_def)
next
  case False
  from json_number_head[OF number_text(1)[OF e False]] obtain c cs where
    t: "num_text e x = c # cs" and c: "is_digit c \<or> c = CHR ''-''" by blast
  from c have "\<not> is_ws c \<and> c \<notin> {CHR ''{'', CHR ''['', CHR 0x22, CHR '']'', CHR ''}''}"
    by (auto simp: is_digit_def is_ws_def)
  with t show ?thesis by blast
qed

lemma json_text_head:
  assumes e: "reads_back_numbers e"
  shows "\<exists>c cs. json_text e v = c # cs \<and> \<not> is_ws c \<and> c \<noteq> CHR '']'' \<and> c \<noteq> CHR ''}''"
proof (cases v)
  case (JNum x)
  with num_text_head[OF e, of x] show ?thesis by auto
qed (auto simp: is_ws_def quote_def)

lemma commas_Cons:
  "commas (t # ts) @ r = t @ (if ts = [] then r else CHR '','' # commas ts @ r)"
  by (cases ts) simp_all

lemma ends_value_simps [simp]:
  "ends_value []" "ends_value (CHR '','' # s)" "ends_value (CHR '']'' # s)" "ends_value (CHR ''}'' # s)"
  by (simp_all add: ends_value_def)

lemma parse_value_null:
  "parse_value e (Suc n) (''null'' @ rest) = Some (JNull, rest)"
  by (simp add: skip_ws_def is_ws_def parse_literal_def)

lemma parse_value_true:
  "parse_value e (Suc n) (''true'' @ rest) = Some (JBool True, rest)"
  by (simp add: skip_ws_def is_ws_def parse_literal_def)

lemma parse_value_false:
  "parse_value e (Suc n) (''false'' @ rest) = Some (JBool False, rest)"
  by (simp add: skip_ws_def is_ws_def parse_literal_def)

lemma parse_value_num:
  assumes e: "reads_back_numbers e" and r: "ends_value rest"
  shows "parse_value e (Suc n) (num_text e x @ rest) = Some (read_back e (JNum x), rest)"
proof (cases "num_text e x = ''null''")
  case True
  with parse_value_null[of e n rest] show ?thesis by simp
next
  case False
  from num_text_head[OF e, of x] obtain c cs where t: "num_text e x = c # cs"
    and c: "\<not> is_ws c" "c \<notin> {CHR ''{'', CHR ''['', CHR 0x22, CHR '']'', CHR ''}''}"
    by blast
  have "parse_value e (Suc n) (c # cs @ rest) = parse_literal e (c # cs @ rest)"
    using c by (simp add: skip_ws_Cons)
  with parse_literal_text[OF e False r] t False show ?thesis by simp
qed

lemma parse_value_quote:
  "parse_value e (Suc n) (quote s @ rest) = Some (JStr s, rest)"
proof -
  have q: "quote s @ rest = CHR 0x22 # (tl (quote s) @ rest)" by (simp add: quote_def)
  have w: "\<not> is_ws (CHR 0x22)" by (simp add: is_ws_def)
  show ?thesis
    unfolding q by (simp add: skip_ws_Cons[OF w] parse_chars_quote del: parse_chars.simps)
qed

lemma parse_elements_commas:
  assumes ih: "\<And>x n rest. x \<in> set xs \<Longrightarrow> parse_cost x \<le> n \<Longrightarrow> ends_value rest \<Longrightarrow>
                 parse_value e n (json_text e x @ rest) = Some (read_back e x, rest)"
    and ne: "xs \<noteq> []"
    and cost: "sum_list (map parse_cost xs) + length xs \<le> n"
  shows "parse_elements e n acc (commas (map (json_text e) xs) @ CHR '']'' # rest)
           = Some (acc @ map (read_back e) xs, rest)"
  using ih ne cost
proof (induction xs arbitrary: n acc)
  case Nil
  then show ?case by simp
next
  case (Cons x xs)
  from Cons.prems(3) obtain m where n: "n = Suc m" by (cases n) auto
  with Cons.prems(3) have cx: "parse_cost x \<le> m"
    and cxs: "sum_list (map parse_cost xs) + length xs \<le> m" by simp_all
  let ?tail = "if xs = [] then CHR '']'' # rest
               else CHR '','' # commas (map (json_text e) xs) @ CHR '']'' # rest"
  have tx: "commas (map (json_text e) (x # xs)) @ CHR '']'' # rest = json_text e x @ ?tail"
    by (simp add: commas_Cons)
  have "ends_value ?tail" by simp
  with Cons.prems(1)[of x m ?tail] cx
  have pv: "parse_value e m (json_text e x @ ?tail) = Some (read_back e x, ?tail)" by simp
  show ?case
  proof (cases "xs = []")
    case True
    with pv show ?thesis
      unfolding tx n by (simp add: skip_ws_def is_ws_def)
  next
    case False
    have "parse_elements e m (acc @ [read_back e x]) (commas (map (json_text e) xs) @ CHR '']'' # rest)
            = Some ((acc @ [read_back e x]) @ map (read_back e) xs, rest)"
      by (rule Cons.IH[OF _ False cxs]) (rule Cons.prems(1), simp_all)
    with pv False show ?thesis
      unfolding tx n by (simp add: skip_ws_def is_ws_def)
  qed
qed

lemma parse_members_commas:
  assumes ih: "\<And>k v n rest. (k, v) \<in> set fs \<Longrightarrow> parse_cost v \<le> n \<Longrightarrow> ends_value rest \<Longrightarrow>
                 parse_value e n (json_text e v @ rest) = Some (read_back e v, rest)"
    and ne: "fs \<noteq> []"
    and cost: "sum_list (map snd (map (map_prod id parse_cost) fs)) + length fs \<le> n"
  shows "parse_members e n acc
           (commas (map member_text (map (map_prod id (json_text e)) fs)) @ CHR ''}'' # rest)
         = Some (foldl (\<lambda>acc kv. set_prop acc (fst kv) (snd kv)) acc
                   (map (map_prod id (read_back e)) fs), rest)"
  using ih ne cost
proof (induction fs arbitrary: n acc)
  case Nil
  then show ?case by simp
next
  case (Cons f fs)
  obtain k v where f: "f = (k, v)" by (cases f)
  from Cons.prems(3) obtain m where n: "n = Suc m" by (cases n) auto
  with Cons.prems(3) f have cv: "parse_cost v \<le> m"
    and cfs: "sum_list (map snd (map (map_prod id parse_cost) fs)) + length fs \<le> m" by simp_all
  let ?tail = "if fs = [] then CHR ''}'' # rest
               else CHR '','' # commas (map member_text (map (map_prod id (json_text e)) fs)) @ CHR ''}'' # rest"
  have tx: "commas (map member_text (map (map_prod id (json_text e)) (f # fs))) @ CHR ''}'' # rest
      = CHR 0x22 # (tl (quote k) @ CHR '':'' # json_text e v @ ?tail)"
    by (simp add: commas_Cons f member_text_def quote_def)
  have "ends_value ?tail" by simp
  with Cons.prems(1)[of k v m ?tail] cv f
  have pv: "parse_value e m (json_text e v @ ?tail) = Some (read_back e v, ?tail)" by simp
  show ?case
  proof (cases "fs = []")
    case True
    with pv show ?thesis
      unfolding tx n
      by (simp add: skip_ws_def is_ws_def parse_chars_quote f del: parse_chars.simps)
  next
    case False
    have "parse_members e m (set_prop acc k (read_back e v))
            (commas (map member_text (map (map_prod id (json_text e)) fs)) @ CHR ''}'' # rest)
          = Some (foldl (\<lambda>acc kv. set_prop acc (fst kv) (snd kv)) (set_prop acc k (read_back e v))
                   (map (map_prod id (read_back e)) fs), rest)"
    proof (rule Cons.IH[OF _ False cfs])
      fix k' v' n' rest'
      assume "(k', v') \<in> set fs" "parse_cost v' \<le> n'" "ends_value rest'"
      then show "parse_value e n' (json_text e v' @ rest') = Some (read_back e v', rest')"
        by (intro Cons.prems(1)[of k' v']) simp_all
    qed
    with pv False show ?thesis
      unfolding tx n
      by (simp add: skip_ws_def is_ws_def parse_chars_quote f id_def del: parse_chars.simps)
  qed
qed

lemma parse_value_text:
  "reads_back_numbers e \<Longrightarrow> parse_cost v \<le> n \<Longrightarrow> ends_value rest \<Longrightarrow>
     parse_value e n (json_text e v @ rest) = Some (read_back e v, rest)"
proof (induction v arbitrary: n rest)
  case JNull
  then obtain m where "n = Suc m" by (cases n) auto
  then show ?case using parse_value_null by simp
next
  case (JBool b)
  then obtain m where "n = Suc m" by (cases n) auto
  then show ?case using parse_value_true parse_value_false by (cases b) simp_all
next
  case (JNum x)
  then obtain m where n: "n = Suc m" by (cases n) auto
  from parse_value_num[OF JNum.prems(1,3), of m x] n show ?case by simp
next
  case (JStr s)
  then obtain m where "n = Suc m" by (cases n) auto
  then show ?case using parse_value_quote by simp
next
  case (JArr xs)
  from JArr.prems(2) obtain m where n: "n = Suc m" by (cases n) auto
  show ?case
  proof (cases "xs = []")
    case True
    then show ?thesis unfolding n by (simp add: skip_ws_def is_ws_def)
  next
    case False
    then obtain x xs' where xs: "xs = x # xs'" by (cases xs) auto
    from json_text_head[OF JArr.prems(1), of x] obtain c cs where h: "json_text e x = c # cs"
      and c: "\<not> is_ws c" "c \<noteq> CHR '']''" by blast
    have "commas (map (json_text e) xs) @ CHR '']'' # rest
          = c # (cs @ (if xs' = [] then CHR '']'' # rest
                      else CHR '','' # commas (map (json_text e) xs') @ CHR '']'' # rest))"
      (is "?text = c # ?more")
      unfolding xs by (simp add: commas_Cons h)
    then have tx: "json_text e (JArr xs) @ rest = CHR ''['' # c # ?more" by simp
    have pe: "parse_elements e m [] (commas (map (json_text e) xs) @ CHR '']'' # rest)
              = Some ([] @ map (read_back e) xs, rest)"
    proof (rule parse_elements_commas[OF _ False])
      fix x n rest assume x: "x \<in> set xs" and "parse_cost x \<le> n" "ends_value rest"
      with JArr.IH[OF x JArr.prems(1)]
      show "parse_value e n (json_text e x @ rest) = Some (read_back e x, rest)" by simp
    next
      from JArr.prems(2) n show "sum_list (map parse_cost xs) + length xs \<le> m" by simp
    qed
    have "parse_value e (Suc m) (CHR ''['' # c # ?more)
           = map_option (apfst JArr) (parse_elements e m [] (c # ?more))"
      using c by (simp add: skip_ws_def is_ws_def)
    with pe \<open>?text = c # ?more\<close> show ?thesis unfolding tx n by simp
  qed
next
  case (JObj fs)
  from JObj.prems(2) obtain m where n: "n = Suc m" by (cases n) auto
  show ?case
  proof (cases "fs = []")
    case True
    then show ?thesis unfolding n by (simp add: skip_ws_def is_ws_def)
  next
    case False
    then obtain k v fs' where fs: "fs = (k, v) # fs'" by (cases fs) auto
    let ?members = "commas (map member_text (map (map_prod id (json_text e)) fs)) @ CHR ''}'' # rest"
    have "\<exists>more. ?members = CHR 0x22 # more"
      unfolding fs by (simp add: commas_Cons member_text_def quote_def)
    then obtain more where members: "?members = CHR 0x22 # more" ..
    then have tx: "json_text e (JObj fs) @ rest = CHR ''{'' # CHR 0x22 # more" by simp
    have pm: "parse_members e m [] ?members
                = Some (foldl (\<lambda>acc kv. set_prop acc (fst kv) (snd kv)) []
                          (map (map_prod id (read_back e)) fs), rest)"
    proof (rule parse_members_commas[OF _ False])
      fix k v n rest assume kv: "(k, v) \<in> set fs" and "parse_cost v \<le> n" "ends_value rest"
      moreover from kv have "v \<in> Basic_BNFs.snds (k, v)" by simp
      ultimately show "parse_value e n (json_text e v @ rest) = Some (read_back e v, rest)"
        using JObj.IH[OF kv _ JObj.prems(1)] by simp
    next
      from JObj.prems(2) n show "sum_list (map snd (map (map_prod id parse_cost) fs)) + length fs \<le> m"
        by simp
    qed
    have "parse_value e (Suc m) (CHR ''{'' # CHR 0x22 # more)
           = map_option (apfst JObj) (parse_members e m [] (CHR 0x22 # more))"
      by (simp add: skip_ws_def is_ws_def)
    with pm members show ?thesis unfolding tx n by simp
  qed
qed

lemma length_commas: "length (commas ts) = sum_list (map length ts) + (length ts - 1)"
  by (induction ts rule: commas.induct) simp_all

lemma num_text_nonempty: "reads_back_numbers e \<Longrightarrow> num_text e x \<noteq> []"
  using num_text_head[of e x] by auto

lemma length_member_text: "length (member_text (k, t)) \<ge> 3 + length t"
  by (simp add: member_text_def quote_def)

lemma parse_cost_le_length:
  assumes e: "reads_back_numbers e"
  shows "parse_cost v \<le> length (json_text e v)"
proof (induction v)
  case (JNum x)
  from num_text_nonempty[OF e, of x] show ?case by (cases "num_text e x") simp_all
next
  case (JStr s)
  show ?case by (simp add: quote_def)
next
  case (JArr xs)
  then have "sum_list (map parse_cost xs) \<le> sum_list (map length (map (json_text e) xs))"
    by (induction xs) (simp_all add: add_mono)
  then show ?case by (cases xs) (simp_all add: length_commas)
next
  case (JObj fs)
  have "sum_list (map snd (map (map_prod id parse_cost) fs)) + 3 * length fs
      \<le> sum_list (map length (map member_text (map (map_prod id (json_text e)) fs)))"
    using JObj
  proof (induction fs)
    case Nil
    show ?case by simp
  next
    case (Cons f fs)
    obtain k v where f: "f = (k, v)" by (cases f)
    from Cons.prems[of f v] f have "parse_cost v \<le> length (json_text e v)" by simp
    with length_member_text[of "json_text e v" k]
    have a: "parse_cost v + 3 \<le> length (member_text (k, json_text e v))" by simp
    have b: "sum_list (map snd (map (map_prod id parse_cost) fs)) + 3 * length fs
      \<le> sum_list (map length (map member_text (map (map_prod id (json_text e)) fs)))"
      by (rule Cons.IH) (rule Cons.prems, simp_all)
    have "sum_list (map snd (map (map_prod id parse_cost) (f # fs))) + 3 * length (f # fs)
        = (parse_cost v + 3) + (sum_list (map snd (map (map_prod id parse_cost) fs)) + 3 * length fs)"
      by (simp add: f)
    also have "\<dots> \<le> length (member_text (k, json_text e v))
        + sum_list (map length (map member_text (map (map_prod id (json_text e)) fs)))"
      by (rule add_mono[OF a b])
    also have "\<dots> = sum_list (map length (map member_text (map (map_prod id (json_text e)) (f # fs))))"
      by (simp add: f)
    finally show ?case .
  qed
  then show ?case by (cases fs) (simp_all add: length_commas)
qed simp_all

text \<open>\<^verbatim>\<open>JSON.parse(JSON.stringify(v))\<close>.\<close>

lemma parse_json_text:
  assumes e: "reads_back_numbers e"
  shows "parse_json e (json_text e v) = Some (read_back e v)"
proof -
  have "parse_cost v \<le> Suc (length (json_text e v))"
    using parse_cost_le_length[OF e, of v] by simp
  from parse_value_text[OF e this, of "[]"]
  show ?thesis by (simp add: parse_json_def skip_ws_def)
qed

subsection \<open>The canonical text\<close>

lemma insort_key_keep_fst:
  assumes "\<And>x. fst (h x) = fst x"
  shows "insort_key fst (h x) (map h ys) = map h (insort_key fst x ys)"
  by (induction ys) (simp_all add: assms)

lemma sort_key_keep_fst:
  assumes "\<And>x. fst (h x) = fst x"
  shows "sort_key fst (map h l) = map h (sort_key fst l)"
  by (induction l) (simp_all add: insort_key_keep_fst[OF assms])

lemma sort_key_fields:
  "sort_key fst (map (map_prod id g) l) = map (map_prod id g) (sort_key fst l)"
  by (rule sort_key_keep_fst) simp

lemma distinct_keys_JObj:
  "distinct_keys (JObj fs) \<longleftrightarrow> distinct (map fst fs) \<and> (\<forall>(k, v) \<in> set fs. distinct_keys v)"
  by (auto simp: list_all_iff)

lemma distinct_keys_JArr: "distinct_keys (JArr xs) \<longleftrightarrow> (\<forall>v \<in> set xs. distinct_keys v)"
  by (auto simp: list_all_iff)

lemma finite_nums_JObj: "finite_nums e (JObj fs) \<longleftrightarrow> (\<forall>(k, v) \<in> set fs. finite_nums e v)"
  by (auto simp: list_all_iff)

lemma finite_nums_JArr: "finite_nums e (JArr xs) \<longleftrightarrow> (\<forall>v \<in> set xs. finite_nums e v)"
  by (auto simp: list_all_iff)

lemma map_fields_cong:
  assumes "\<And>k v. (k, v) \<in> set fs \<Longrightarrow> f v = g v"
  shows "map (map_prod id f) fs = map (map_prod id g) fs"
proof (rule map_cong[OF refl])
  fix x assume "x \<in> set fs"
  with assms[of "fst x" "snd x"] show "map_prod id f x = map_prod id g x"
    by (cases x) simp
qed

lemma map_fields_comp:
  "map (map_prod id f) (map (map_prod id g) fs) = map (map_prod id (f \<circ> g)) fs"
  by (induction fs) auto
lemma sorted_text_sort_keys: "sorted_text e v = json_text e (sort_keys v)"
proof (induction v)
  case (JArr xs)
  then have "map (sorted_text e) xs = map (json_text e) (map sort_keys xs)" by simp
  then show ?case by (simp only: sorted_text.simps sort_keys.simps json_text.simps)
next
  case (JObj fs)
  have "map (map_prod id (sorted_text e)) fs = map (map_prod id (json_text e \<circ> sort_keys)) fs"
  proof (rule map_fields_cong)
    fix k v assume kv: "(k, v) \<in> set fs"
    then have "v \<in> Basic_BNFs.snds (k, v)" by simp
    from JObj[OF kv this] show "sorted_text e v = (json_text e \<circ> sort_keys) v" by simp
  qed
  also have "\<dots> = map (map_prod id (json_text e)) (map (map_prod id sort_keys) fs)"
    by (simp only: map_fields_comp)
  finally show ?case by (simp only: sorted_text.simps sort_keys.simps json_text.simps sort_key_fields)
qed simp_all

lemma sort_keys_idem: "sort_keys (sort_keys v) = sort_keys v"
proof (induction v)
  case (JArr xs)
  then show ?case by simp
next
  case (JObj fs)
  let ?l = "map (map_prod id sort_keys) fs"
  have s: "sort_key fst (sort_key fst ?l) = sort_key fst ?l"
    by (rule sort_key_id_if_sorted) simp
  have "map (map_prod id sort_keys) ?l = map (map_prod id (sort_keys \<circ> sort_keys)) fs"
    by (simp only: map_fields_comp)
  also have "\<dots> = ?l"
  proof (rule map_fields_cong)
    fix k v assume kv: "(k, v) \<in> set fs"
    then have "v \<in> Basic_BNFs.snds (k, v)" by simp
    from JObj[OF kv this] show "(sort_keys \<circ> sort_keys) v = sort_keys v" by simp
  qed
  finally have m: "map (map_prod id sort_keys) ?l = ?l" .
  have "sort_key fst (map (map_prod id sort_keys) (sort_key fst ?l))
      = sort_key fst (sort_key fst (map (map_prod id sort_keys) ?l))"
    by (simp only: sort_key_fields)
  also have "\<dots> = sort_key fst ?l" by (simp only: m s)
  finally show ?case by (simp only: sort_keys.simps)
qed simp_all

lemma encode_text: "encode (js e) v = json_text e (sort_keys v)"
  by (simp add: encode_js sorted_text_sort_keys sort_keys_idem)

text \<open>Decoding what the encoder wrote.\<close>

lemma parse_json_encode:
  assumes "reads_back_numbers e"
  shows "parse_json e (encode (js e) v) = Some (read_back e (sort_keys v))"
  unfolding encode_text by (rule parse_json_text[OF assms])

lemma distinct_keys_sort_keys: "distinct_keys v \<Longrightarrow> distinct_keys (sort_keys v)"
proof (induction v)
  case (JArr xs)
  then show ?case by (simp add: distinct_keys_JArr del: distinct_keys.simps)
next
  case (JObj fs)
  from JObj.prems have d: "distinct (map fst fs)" by simp
  have 1: "distinct (map fst (sort_key fst (map (map_prod id sort_keys) fs)))"
    using d by (simp add: sort_key_fields distinct_map)
  have 2: "distinct_keys w" if "(k, w) \<in> set (sort_key fst (map (map_prod id sort_keys) fs))" for k w
  proof -
    from that obtain v where kv: "(k, v) \<in> set fs" and w: "w = sort_keys v" by auto
    from kv have "v \<in> Basic_BNFs.snds (k, v)" by simp
    from JObj.IH[OF kv this] distinct_keys_field[OF JObj.prems kv] w show ?thesis by simp
  qed
  show ?case
    unfolding sort_keys.simps distinct_keys_JObj using 1 2 by blast
qed simp_all

lemma finite_nums_field: "finite_nums e (JObj fs) \<Longrightarrow> (k, v) \<in> set fs \<Longrightarrow> finite_nums e v"
  by (auto simp: list_all_iff)

lemma finite_nums_elem: "finite_nums e (JArr xs) \<Longrightarrow> v \<in> set xs \<Longrightarrow> finite_nums e v"
  by (auto simp: list_all_iff)

lemma finite_nums_sort_keys: "finite_nums e v \<Longrightarrow> finite_nums e (sort_keys v)"
proof (induction v)
  case (JArr xs)
  then show ?case by (simp add: finite_nums_JArr del: finite_nums.simps)
next
  case (JObj fs)
  have 2: "finite_nums e w" if "(k, w) \<in> set (sort_key fst (map (map_prod id sort_keys) fs))" for k w
  proof -
    from that obtain v where kv: "(k, v) \<in> set fs" and w: "w = sort_keys v" by auto
    from kv have "v \<in> Basic_BNFs.snds (k, v)" by simp
    from JObj.IH[OF kv this] finite_nums_field[OF JObj.prems kv] w show ?thesis by simp
  qed
  show ?case
    unfolding sort_keys.simps finite_nums_JObj using 2 by blast
qed simp_all

lemma map_of_sort_key: "distinct (map fst l) \<Longrightarrow> map_of (sort_key fst l) = map_of l"
  by (subst map_of_inject_set) (simp_all add: distinct_map)

lemma as_mapping_sort_keys: "distinct_keys v \<Longrightarrow> as_mapping (sort_keys v) = as_mapping v"
proof (induction v)
  case (JArr xs)
  then show ?case by (simp add: distinct_keys_JArr del: distinct_keys.simps)
next
  case (JObj fs)
  from JObj.prems have d: "distinct (map fst fs)" by simp
  have "map (map_prod id as_mapping) (map (map_prod id sort_keys) fs)
      = map (map_prod id (as_mapping \<circ> sort_keys)) fs" by (simp only: map_fields_comp)
  also have "\<dots> = map (map_prod id as_mapping) fs"
  proof (rule map_fields_cong)
    fix k v assume kv: "(k, v) \<in> set fs"
    then have "v \<in> Basic_BNFs.snds (k, v)" by simp
    from JObj.IH[OF kv this] distinct_keys_field[OF JObj.prems kv]
    show "(as_mapping \<circ> sort_keys) v = as_mapping v" by simp
  qed
  finally have e: "map (map_prod id as_mapping) (map (map_prod id sort_keys) fs)
      = map (map_prod id as_mapping) fs" .
  have "map (map_prod id as_mapping) (sort_key fst (map (map_prod id sort_keys) fs))
      = sort_key fst (map (map_prod id as_mapping) fs)"
    by (simp only: sort_key_fields[symmetric] e)
  moreover have "fmap_of_list (sort_key fst (map (map_prod id as_mapping) fs))
      = fmap_of_list (map (map_prod id as_mapping) fs)"
    by (rule fmap_ext) (simp add: fmlookup_of_list map_of_sort_key d)
  ultimately show ?case by (simp only: sort_keys.simps as_mapping.simps)
qed simp_all

subsection \<open>Properties of an object\<close>

lemma map_of_replace_prop:
  "k \<in> set (map fst fs) \<Longrightarrow>
     map_of (replace_prop fs k v) k' = (if k' = k then Some v else map_of fs k')"
proof (induction fs)
  case Nil
  then show ?case by simp
next
  case (Cons a fs)
  obtain k1 v1 where a: "a = (k1, v1)" by (cases a)
  show ?case
  proof (cases "k1 = k")
    case True
    with a show ?thesis by simp
  next
    case False
    with Cons.prems a have "k \<in> set (map fst fs)" by auto
    from Cons.IH[OF this] a False show ?thesis by auto
  qed
qed

lemma map_of_add_prop:
  "k \<notin> set (map fst fs) \<Longrightarrow> map_of (add_prop fs k v) k' = (if k' = k then Some v else map_of fs k')"
proof (induction fs)
  case Nil
  show ?case by simp
next
  case (Cons a fs)
  obtain k1 v1 where a: "a = (k1, v1)" by (cases a)
  from Cons.prems a have ne: "k1 \<noteq> k" and n: "k \<notin> set (map fst fs)" by auto
  show ?case
  proof (cases "listed_before k k1")
    case True
    with a ne show ?thesis by simp
  next
    case False
    with a ne Cons.IH[OF n] show ?thesis by auto
  qed
qed

lemma get_prop_set_prop: "get_prop (set_prop fs k v) k' = (if k' = k then Some v else get_prop fs k')"
  by (simp add: get_prop_def set_prop_def map_of_replace_prop map_of_add_prop)

lemma map_fst_replace_prop: "map fst (replace_prop fs k v) = map fst fs"
proof (induction fs)
  case Nil
  show ?case by simp
next
  case (Cons a fs)
  obtain k1 v1 where a: "a = (k1, v1)" by (cases a)
  with Cons show ?case by simp
qed

lemma set_add_prop: "set (add_prop fs k v) = insert (k, v) (set fs)"
proof (induction fs)
  case Nil
  show ?case by simp
next
  case (Cons a fs)
  obtain k1 v1 where a: "a = (k1, v1)" by (cases a)
  show ?case
  proof (cases "listed_before k k1")
    case True
    with a show ?thesis by simp
  next
    case False
    with a Cons show ?thesis by (simp add: insert_commute)
  qed
qed

lemma set_fst_add_prop: "set (map fst (add_prop fs k v)) = insert k (set (map fst fs))"
  by (simp add: set_add_prop)

lemma map_fst_set_prop: "set (map fst (set_prop fs k v)) = insert k (set (map fst fs))"
  by (auto simp: set_prop_def map_fst_replace_prop set_fst_add_prop simp del: set_map)

lemma distinct_add_prop:
  "distinct (map fst fs) \<Longrightarrow> k \<notin> set (map fst fs) \<Longrightarrow> distinct (map fst (add_prop fs k v))"
proof (induction fs)
  case Nil
  show ?case by simp
next
  case (Cons a fs)
  obtain k' v' where a: "a = (k', v')" by (cases a)
  from Cons a show ?case
    using set_fst_add_prop[of fs k v] by (auto simp del: set_map)
qed

lemma distinct_set_prop: "distinct (map fst fs) \<Longrightarrow> distinct (map fst (set_prop fs k v))"
  by (simp add: set_prop_def map_fst_replace_prop distinct_add_prop del: set_map)

lemma set_replace_prop: "set (replace_prop fs k v) \<subseteq> insert (k, v) (set fs)"
proof (induction fs)
  case Nil
  show ?case by simp
next
  case (Cons a fs)
  obtain k1 v1 where a: "a = (k1, v1)" by (cases a)
  show ?case
  proof (cases "k1 = k")
    case True
    with a show ?thesis by auto
  next
    case False
    with a Cons show ?thesis by auto
  qed
qed

lemma set_set_prop: "set (set_prop fs k v) \<subseteq> insert (k, v) (set fs)"
  using set_replace_prop[of fs k v] by (simp add: set_prop_def set_add_prop)

text \<open>An object built property by property, as \<open>read_back\<close> and the reader build theirs.\<close>

lemma distinct_foldl_set_prop:
  "distinct (map fst acc) \<Longrightarrow>
     distinct (map fst (foldl (\<lambda>acc kv. set_prop acc (fst kv) (snd kv)) acc fs))"
  by (induction fs arbitrary: acc) (simp_all add: distinct_set_prop)

lemma set_foldl_set_prop:
  "set (foldl (\<lambda>acc kv. set_prop acc (fst kv) (snd kv)) acc fs) \<subseteq> set acc \<union> set fs"
proof (induction fs arbitrary: acc)
  case Nil
  show ?case by simp
next
  case (Cons f fs)
  from Cons[of "set_prop acc (fst f) (snd f)"] set_set_prop[of acc "fst f" "snd f"]
  show ?case by auto
qed

lemma map_of_foldl_set_prop:
  "distinct (map fst fs) \<Longrightarrow>
     map_of (foldl (\<lambda>acc kv. set_prop acc (fst kv) (snd kv)) acc fs) k
       = (case map_of fs k of Some v \<Rightarrow> Some v | None \<Rightarrow> map_of acc k)"
proof (induction fs arbitrary: acc)
  case Nil
  show ?case by simp
next
  case (Cons f fs)
  obtain k1 v1 where f: "f = (k1, v1)" by (cases f)
  from Cons.prems f have d: "distinct (map fst fs)" and n: "map_of fs k1 = None"
    by (simp_all add: map_of_eq_None_iff)
  have g: "map_of (set_prop acc k1 v1) k = (if k = k1 then Some v1 else map_of acc k)"
    using get_prop_set_prop[of acc k1 v1 k] by (simp add: get_prop_def)
  from Cons.IH[OF d, of "set_prop acc k1 v1"] g n f show ?case
    by (auto split: option.splits)
qed

lemma finite_nums_read_back: "finite_nums e (read_back e v)"
proof (induction v)
  case (JArr xs)
  then show ?case by (simp add: list_all_iff)
next
  case (JObj fs)
  have "finite_nums e w"
    if "(k, w) \<in> set (foldl (\<lambda>acc kv. set_prop acc (fst kv) (snd kv)) []
                        (map (map_prod id (read_back e)) fs))" for k w
  proof -
    from that set_foldl_set_prop[of "[]" "map (map_prod id (read_back e)) fs"]
    obtain v where kv: "(k, v) \<in> set fs" and w: "w = read_back e v" by auto
    from kv have "v \<in> Basic_BNFs.snds (k, v)" by simp
    from JObj[OF kv this] w show ?thesis by simp
  qed
  then show ?case unfolding read_back.simps finite_nums_JObj by blast
qed simp_all

lemma distinct_keys_read_back: "distinct_keys (read_back e v)"
proof (induction v)
  case (JArr xs)
  then show ?case by (simp add: list_all_iff)
next
  case (JObj fs)
  have 1: "distinct (map fst (foldl (\<lambda>acc kv. set_prop acc (fst kv) (snd kv)) []
                        (map (map_prod id (read_back e)) fs)))"
    by (rule distinct_foldl_set_prop) simp
  have 2: "distinct_keys w"
    if "(k, w) \<in> set (foldl (\<lambda>acc kv. set_prop acc (fst kv) (snd kv)) []
                        (map (map_prod id (read_back e)) fs))" for k w
  proof -
    from that set_foldl_set_prop[of "[]" "map (map_prod id (read_back e)) fs"]
    obtain v where kv: "(k, v) \<in> set fs" and w: "w = read_back e v" by auto
    from kv have "v \<in> Basic_BNFs.snds (k, v)" by simp
    from JObj[OF kv this] w show ?thesis by simp
  qed
  from 1 2 show ?case unfolding read_back.simps distinct_keys_JObj by blast
qed simp_all

text \<open>The fields of the object read back, for an object with distinct keys.\<close>

lemma get_prop_read_back:
  assumes "distinct (map fst fs)" and "read_back e (JObj fs) = JObj fs'"
  shows "get_prop fs' k = map_option (read_back e) (get_prop fs k)"
proof -
  from assms(2) have "fs' = foldl (\<lambda>acc kv. set_prop acc (fst kv) (snd kv)) []
                        (map (map_prod id (read_back e)) fs)" by simp
  moreover from assms(1) have "distinct (map fst (map (map_prod id (read_back e)) fs))" by simp
  ultimately have "map_of fs' k = map_of (map (map_prod id (read_back e)) fs) k"
    by (simp add: map_of_foldl_set_prop split: option.splits)
  then show ?thesis by (simp add: get_prop_def map_of_fields)
qed

lemma as_mapping_read_back:
  "distinct_keys v \<Longrightarrow> finite_nums e v \<Longrightarrow> as_mapping (read_back e v) = as_mapping v"
proof (induction v)
  case (JArr xs)
  then show ?case by (simp add: list_all_iff)
next
  case (JObj fs)
  from JObj.prems(1) have d: "distinct (map fst fs)" by simp
  obtain fs' where fs': "read_back e (JObj fs) = JObj fs'" by simp
  have "map_of (map (map_prod id as_mapping) fs') k = map_of (map (map_prod id as_mapping) fs) k" for k
  proof (cases "map_of fs k")
    case None
    with get_prop_read_back[OF d fs', of k] show ?thesis
      by (simp add: map_of_fields get_prop_def)
  next
    case (Some v)
    then have kv: "(k, v) \<in> set fs" by (rule map_of_SomeD)
    then have "v \<in> Basic_BNFs.snds (k, v)" by simp
    from JObj.IH[OF kv this distinct_keys_field[OF JObj.prems(1) kv] finite_nums_field[OF JObj.prems(2) kv]]
    have "as_mapping (read_back e v) = as_mapping v" .
    with Some get_prop_read_back[OF d fs', of k] show ?thesis
      by (simp add: map_of_fields get_prop_def)
  qed
  then have "fmap_of_list (map (map_prod id as_mapping) fs') = fmap_of_list (map (map_prod id as_mapping) fs)"
    by (intro fmap_ext) (simp add: fmlookup_of_list)
  with fs' show ?case by (simp only: as_mapping.simps)
qed simp_all

text \<open>
  The record decoded from what the encoder wrote is the record that was encoded, as a
  mapping, when its keys are distinct and its numbers finite.
\<close>

lemma as_mapping_decoded:
  "distinct_keys v \<Longrightarrow> finite_nums e v \<Longrightarrow> as_mapping (read_back e (sort_keys v)) = as_mapping v"
  using as_mapping_read_back[OF distinct_keys_sort_keys finite_nums_sort_keys, of v e]
  by (simp add: as_mapping_sort_keys)

lemma get_prop_sorted_fields:
  "distinct (map fst fs) \<Longrightarrow>
     get_prop (sort_key fst (map (map_prod id f) fs)) k = map_option f (get_prop fs k)"
  by (simp add: get_prop_def map_of_sort_key map_of_fields)

lemma get_prop_decoded:
  assumes d: "distinct (map fst fs)" and r: "read_back e (sort_keys (JObj fs)) = JObj fs'"
  shows "get_prop fs' k = map_option (\<lambda>v. read_back e (sort_keys v)) (get_prop fs k)"
proof -
  let ?s = "sort_key fst (map (map_prod id sort_keys) fs)"
  from d have ds: "distinct (map fst ?s)" by (simp add: sort_key_fields distinct_map)
  from r have "read_back e (JObj ?s) = JObj fs'" by simp
  from get_prop_read_back[OF ds this, of k] get_prop_sorted_fields[OF d, of sort_keys k]
  show ?thesis by (simp add: option.map_comp comp_def)
qed

lemma set_foldl_set_prop_eq:
  assumes d: "distinct (map fst fs)"
  shows "set (foldl (\<lambda>acc kv. set_prop acc (fst kv) (snd kv)) [] fs) = set fs"
proof -
  let ?F = "foldl (\<lambda>acc kv. set_prop acc (fst kv) (snd kv)) [] fs"
  have dF: "distinct (map fst ?F)" by (rule distinct_foldl_set_prop) simp
  have "map_of ?F k = map_of fs k" for k
    by (simp add: map_of_foldl_set_prop[OF d] split: option.splits)
  then have "map_of ?F = map_of fs" by (rule ext)
  with map_of_inject_set[OF dF d] show ?thesis by simp
qed

text \<open>
  Reading a value back does not change its canonical text: the keys are sorted again, and a
  number read back as \<^verbatim>\<open>null\<close> was written \<^verbatim>\<open>null\<close>.
\<close>

lemma canonical_text_read_back:
  "distinct_keys v \<Longrightarrow> json_text e (sort_keys (read_back e v)) = json_text e (sort_keys v)"
proof (induction v)
  case (JArr xs)
  then have "map (json_text e) (map sort_keys (map (read_back e) xs))
             = map (json_text e) (map sort_keys xs)"
    by (simp add: list_all_iff)
  then show ?case by (simp only: read_back.simps sort_keys.simps json_text.simps)
next
  case (JObj fs)
  from JObj.prems have d: "distinct (map fst fs)" by simp
  let ?g = "json_text e \<circ> sort_keys"
  let ?R = "map (map_prod id (read_back e)) fs"
  let ?F = "foldl (\<lambda>acc kv. set_prop acc (fst kv) (snd kv)) [] ?R"
  from d have dR: "distinct (map fst ?R)" by simp
  have dF: "distinct (map fst ?F)" by (rule distinct_foldl_set_prop) simp
  have sF: "set ?F = set ?R" by (rule set_foldl_set_prop_eq[OF dR])
  have "map (map_prod id ?g) ?R = map (map_prod id (?g \<circ> read_back e)) fs"
    by (simp only: map_fields_comp)
  also have "\<dots> = map (map_prod id ?g) fs"
  proof (rule map_fields_cong)
    fix k v assume kv: "(k, v) \<in> set fs"
    then have "v \<in> Basic_BNFs.snds (k, v)" by simp
    from JObj.IH[OF kv this distinct_keys_field[OF JObj.prems kv]]
    show "(?g \<circ> read_back e) v = ?g v" by simp
  qed
  finally have m: "map (map_prod id ?g) ?R = map (map_prod id ?g) fs" .
  have "set (map (map_prod id ?g) ?F) = set (map (map_prod id ?g) ?R)"
    by (simp only: set_map sF)
  with m have s: "set (map (map_prod id ?g) ?F) = set (map (map_prod id ?g) fs)" by (simp only:)
  have "sort_key fst (map (map_prod id ?g) ?F) = sort_key fst (map (map_prod id ?g) fs)"
    by (rule sort_key_fields_eq[OF _ _ s]) (simp_all add: dF d del: set_map)
  moreover have "map (map_prod id (json_text e)) (sort_key fst (map (map_prod id sort_keys) l))
      = sort_key fst (map (map_prod id ?g) l)" for l :: "(string \<times> 'a json) list"
    by (simp only: sort_key_fields[symmetric] map_fields_comp)
  ultimately have "map (map_prod id (json_text e)) (sort_key fst (map (map_prod id sort_keys) ?F))
      = map (map_prod id (json_text e)) (sort_key fst (map (map_prod id sort_keys) fs))"
    by (simp only:)
  then show ?case by (simp only: read_back.simps sort_keys.simps json_text.simps)
qed simp_all

lemma encode_decoded:
  assumes "distinct_keys v"
  shows "encode (js e) (read_back e (sort_keys v)) = encode (js e) v"
  using canonical_text_read_back[OF distinct_keys_sort_keys[OF assms], of e]
  by (simp add: encode_text sort_keys_idem)

subsection \<open>What the reader gives has distinct keys\<close>

lemma parse_literal_wf: "parse_literal nh s = Some (v, r) \<Longrightarrow> distinct_keys v"
  by (auto simp: parse_literal_def parse_number_def Let_def split: if_splits)

lemma parse_wf:
  "parse_value nh n s = Some (v, r) \<Longrightarrow> distinct_keys v"
  "parse_elements nh n acc s = Some (xs, r) \<Longrightarrow> \<forall>x \<in> set acc. distinct_keys x \<Longrightarrow>
     \<forall>x \<in> set xs. distinct_keys x"
  "parse_members nh n acc' s = Some (fs, r) \<Longrightarrow> distinct (map fst acc') \<Longrightarrow>
     \<forall>kv \<in> set acc'. distinct_keys (snd kv) \<Longrightarrow>
     distinct (map fst fs) \<and> (\<forall>kv \<in> set fs. distinct_keys (snd kv))"
proof (induction nh n s and nh n acc s and nh n acc' s arbitrary: v r and xs r and fs r
    rule: parse_value_parse_elements_parse_members.induct)
  case (1 nh s)
  then show ?case by simp
next
  case (2 nh n s)
  show ?case
  proof (cases "skip_ws s")
    case Nil
    with 2(3) show ?thesis by simp
  next
    case (Cons c cs)
    show ?thesis
    proof (cases "c = CHR ''{''")
      case True
      note brace = this
      show ?thesis
      proof (cases "skip_ws cs")
        case Nil
        with 2(3) Cons brace show ?thesis by simp
      next
        case (Cons d ds)
        show ?thesis
        proof (cases "d = CHR ''}''")
          case True
          with 2(3) \<open>skip_ws s = c # cs\<close> brace Cons show ?thesis by auto
        next
          case False
          with 2(3) \<open>skip_ws s = c # cs\<close> brace Cons
          obtain fs where pm: "parse_members nh n [] (d # ds) = Some (fs, r)" and v: "v = JObj fs"
            by auto
          from 2(1)[OF \<open>skip_ws s = c # cs\<close> brace Cons False pm]
          show ?thesis unfolding v distinct_keys_JObj by auto
        qed
      qed
    next
      case False
      note nobrace = this
      show ?thesis
      proof (cases "c = CHR ''[''")
        case True
        note bracket = this
        show ?thesis
        proof (cases "skip_ws cs")
          case Nil
          with 2(3) Cons nobrace bracket \<open>skip_ws s = c # cs\<close> show ?thesis by simp
        next
          case (Cons d ds)
          show ?thesis
          proof (cases "d = CHR '']''")
            case True
            with 2(3) \<open>skip_ws s = c # cs\<close> nobrace bracket Cons show ?thesis by auto
          next
            case False
            with 2(3) \<open>skip_ws s = c # cs\<close> nobrace bracket Cons
            obtain xs where pe: "parse_elements nh n [] (d # ds) = Some (xs, r)" and v: "v = JArr xs"
              by auto
            from 2(2)[OF \<open>skip_ws s = c # cs\<close> nobrace bracket Cons False pe]
            show ?thesis unfolding v distinct_keys_JArr by auto
          qed
        qed
      next
        case False
        with 2(3) Cons nobrace show ?thesis
          by (auto simp: parse_literal_wf split: if_splits)
      qed
    qed
  qed
next
  case (3 nh acc s)
  then show ?case by simp
next
  case (4 nh n acc s)
  from 4(3) obtain v r1 where pv: "parse_value nh n s = Some (v, r1)"
    by (cases "parse_value nh n s") auto
  from 4(1)[OF pv] have wv: "distinct_keys v" .
  from 4(3) pv obtain c cs where sk: "skip_ws r1 = c # cs"
    by (cases "skip_ws r1") auto
  have acc': "\<forall>x \<in> set (acc @ [v]). distinct_keys x"
    using 4(4) wv by auto
  show ?case
  proof (cases "c = CHR '',''")
    case True
    with 4(3) pv sk have "parse_elements nh n (acc @ [v]) cs = Some (xs, r)" by simp
    from 4(2)[OF pv refl sk True this acc'] show ?thesis .
  next
    case False
    with 4(3) pv sk have "xs = acc @ [v]" by (auto split: if_splits)
    with acc' show ?thesis by simp
  qed
next
  case (5 nh acc s)
  then show ?case by simp
next
  case (6 nh n acc s)
  from 6(3) obtain c cs where sk: "skip_ws s = c # cs" by (cases "skip_ws s") auto
  from 6(3) sk have q: "c = CHR 0x22" by (auto split: if_splits)
  from 6(3) sk q obtain k r1 where pc: "parse_chars cs = Some (k, r1)"
    by (cases "parse_chars cs") auto
  from 6(3) sk q pc obtain d ds where sk1: "skip_ws r1 = d # ds"
    by (cases "skip_ws r1") auto
  from 6(3) sk q pc sk1 have col: "d = CHR '':''" by (auto split: if_splits)
  from 6(3) sk q pc sk1 col obtain v r2 where pv: "parse_value nh n ds = Some (v, r2)"
    by (cases "parse_value nh n ds") auto
  from 6(3) sk q pc sk1 col pv obtain e es where sk2: "skip_ws r2 = e # es"
    by (cases "skip_ws r2") auto
  from 6(1)[OF sk q pc refl sk1 col pv] have wv: "distinct_keys v" .
  have d': "distinct (map fst (set_prop acc k v))" by (rule distinct_set_prop[OF 6(4)])
  have w': "\<forall>kv \<in> set (set_prop acc k v). distinct_keys (snd kv)"
    using set_set_prop[of acc k v] 6(5) wv by auto
  show ?case
  proof (cases "e = CHR '',''")
    case True
    with 6(3) sk q pc sk1 col pv sk2
    have "parse_members nh n (set_prop acc k v) es = Some (fs, r)" by simp
    from 6(2)[OF sk q pc refl sk1 col pv refl sk2 True this d' w'] show ?thesis .
  next
    case False
    with 6(3) sk q pc sk1 col pv sk2 have "fs = set_prop acc k v" by (auto split: if_splits)
    with d' w' show ?thesis by simp
  qed
qed

lemma parse_json_wf: "parse_json nh s = Some v \<Longrightarrow> distinct_keys v"
proof -
  assume p: "parse_json nh s = Some v"
  then obtain r where "parse_value nh (Suc (length s)) s = Some (v, r)"
    unfolding parse_json_def
    by (cases "parse_value nh (Suc (length s)) s") (auto split: if_splits simp del: parse_value.simps)
  then show ?thesis by (rule parse_wf(1))
qed

subsection \<open>The bound on nested calls is never reached\<close>

lemma parse_fuel_mono:
  "parse_value nh n s = Some x \<Longrightarrow> parse_value nh (n + k) s = Some x"
  "parse_elements nh n acc s = Some y \<Longrightarrow> parse_elements nh (n + k) acc s = Some y"
  "parse_members nh n acc' s = Some z \<Longrightarrow> parse_members nh (n + k) acc' s = Some z"
proof (induction nh n s and nh n acc s and nh n acc' s arbitrary: x and y and z
    rule: parse_value_parse_elements_parse_members.induct)
  case (1 nh s)
  then show ?case by simp
next
  case (2 nh n s)
  show ?case
  proof (cases "skip_ws s")
    case Nil
    with 2(3) show ?thesis by simp
  next
    case (Cons c cs)
    note sk = this
    show ?thesis
    proof (cases "c = CHR ''{''")
      case True
      note brace = this
      show ?thesis
      proof (cases "skip_ws cs")
        case Nil
        with 2(3) sk brace show ?thesis by simp
      next
        case (Cons d ds)
        show ?thesis
        proof (cases "d = CHR ''}''")
          case True
          with 2(3) sk brace Cons show ?thesis by simp
        next
          case False
          with 2(3) sk brace Cons
          obtain z where pm: "parse_members nh n [] (d # ds) = Some z" and x: "x = apfst JObj z"
            by auto
          from 2(1)[OF sk brace Cons False pm] x sk brace Cons False
          show ?thesis by simp
        qed
      qed
    next
      case False
      note nobrace = this
      show ?thesis
      proof (cases "c = CHR ''[''")
        case True
        note bracket = this
        show ?thesis
        proof (cases "skip_ws cs")
          case Nil
          with 2(3) sk nobrace bracket show ?thesis by simp
        next
          case (Cons d ds)
          show ?thesis
          proof (cases "d = CHR '']''")
            case True
            with 2(3) sk nobrace bracket Cons show ?thesis by simp
          next
            case False
            with 2(3) sk nobrace bracket Cons
            obtain y where pe: "parse_elements nh n [] (d # ds) = Some y" and x: "x = apfst JArr y"
              by auto
            from 2(2)[OF sk nobrace bracket Cons False pe] x sk nobrace bracket Cons False
            show ?thesis by simp
          qed
        qed
      next
        case False
        with 2(3) sk nobrace show ?thesis by simp
      qed
    qed
  qed
next
  case (3 nh acc s)
  then show ?case by simp
next
  case (4 nh n acc s)
  from 4(3) obtain v r1 where pv: "parse_value nh n s = Some (v, r1)"
    by (cases "parse_value nh n s") auto
  from 4(1)[OF pv] have pv': "parse_value nh (n + k) s = Some (v, r1)" .
  from 4(3) pv obtain c cs where sk: "skip_ws r1 = c # cs"
    by (cases "skip_ws r1") auto
  show ?case
  proof (cases "c = CHR '',''")
    case True
    with 4(3) pv sk have "parse_elements nh n (acc @ [v]) cs = Some y" by simp
    from 4(2)[OF pv refl sk True this] pv' sk True show ?thesis by simp
  next
    case False
    with 4(3) pv pv' sk show ?thesis by (simp split: if_splits)
  qed
next
  case (5 nh acc s)
  then show ?case by simp
next
  case (6 nh n acc s)
  from 6(3) obtain c cs where sk: "skip_ws s = c # cs" by (cases "skip_ws s") auto
  from 6(3) sk have q: "c = CHR 0x22" by (auto split: if_splits)
  from 6(3) sk q obtain key r1 where pc: "parse_chars cs = Some (key, r1)"
    by (cases "parse_chars cs") auto
  from 6(3) sk q pc obtain d ds where sk1: "skip_ws r1 = d # ds"
    by (cases "skip_ws r1") auto
  from 6(3) sk q pc sk1 have col: "d = CHR '':''" by (auto split: if_splits)
  from 6(3) sk q pc sk1 col obtain v r2 where pv: "parse_value nh n ds = Some (v, r2)"
    by (cases "parse_value nh n ds") auto
  from 6(3) sk q pc sk1 col pv obtain e es where sk2: "skip_ws r2 = e # es"
    by (cases "skip_ws r2") auto
  from 6(1)[OF sk q pc refl sk1 col pv] have pv': "parse_value nh (n + k) ds = Some (v, r2)" .
  show ?case
  proof (cases "e = CHR '',''")
    case True
    with 6(3) sk q pc sk1 col pv sk2
    have "parse_members nh n (set_prop acc key v) es = Some z" by simp
    from 6(2)[OF sk q pc refl sk1 col pv refl sk2 True this] sk q pc sk1 col pv' sk2 True
    show ?thesis by simp
  next
    case False
    with 6(3) sk q pc sk1 col pv pv' sk2 show ?thesis by (simp split: if_splits)
  qed
qed

lemma parse_fuel_le:
  "parse_value nh n s = Some x \<Longrightarrow> n \<le> m \<Longrightarrow> parse_value nh m s = Some x"
  "parse_elements nh n acc s = Some y \<Longrightarrow> n \<le> m \<Longrightarrow> parse_elements nh m acc s = Some y"
  "parse_members nh n acc' s = Some z \<Longrightarrow> n \<le> m \<Longrightarrow> parse_members nh m acc' s = Some z"
  using parse_fuel_mono[where n = n and k = "m - n"] by simp_all

lemma length_skip_ws: "length (skip_ws s) \<le> length s"
  by (simp add: skip_ws_def length_dropWhile_le)

lemma skip_ws_ConsD: "skip_ws s = c # cs \<Longrightarrow> length cs < length s"
  using length_skip_ws[of s] by simp

lemma parse_chars_shorter: "parse_chars cs = Some (k, r) \<Longrightarrow> length r < Suc (length cs)"
proof (induction cs arbitrary: k r rule: parse_chars.induct)
  case 1
  then show ?case by simp
next
  case (2 c cs)
  note p = 2(5)
  show ?case
  proof (cases "c = CHR 0x22")
    case True
    with p show ?thesis by simp
  next
    case False
    note nq = this
    show ?thesis
    proof (cases "c = CHR 0x5C")
      case True
      note bs = this
      from p nq bs obtain e r0 where cs: "cs = e # r0" by (cases cs) auto
      show ?thesis
      proof (cases "e = CHR ''u''")
        case True
        from p nq bs cs True obtain n where h: "parse_hex4 (take 4 r0) = Some n"
          by (cases "parse_hex4 (take 4 r0)") auto
        show ?thesis
        proof (cases "n < 55296 \<or> 57344 \<le> n")
          case plain: True
          from p nq bs cs True h plain obtain k' where "parse_chars (drop 4 r0) = Some (k', r)"
            by (cases "parse_chars (drop 4 r0)") auto
          from 2(1)[OF nq bs cs True h plain this] cs show ?thesis by simp
        next
          case high: False
          from p nq bs cs True h high
          have low: "n < 56320 \<and> take 2 (drop 4 r0) = [CHR 0x5C, CHR ''u'']"
            by (auto split: if_splits)
          from p nq bs cs True h high low obtain m where h2: "parse_hex4 (take 4 (drop 6 r0)) = Some m"
            by (cases "parse_hex4 (take 4 (drop 6 r0))") auto
          from p nq bs cs True h high low h2 have m: "56320 \<le> m \<and> m < 57344"
            by (auto split: if_splits)
          from p nq bs cs True h high low h2 m obtain k' where "parse_chars (drop 10 r0) = Some (k', r)"
            by (cases "parse_chars (drop 10 r0)") auto
          from 2(2)[OF nq bs cs True h high low h2 m this] cs show ?thesis by simp
        qed
      next
        case False
        from p nq bs cs False obtain d where u: "unescape e = Some d"
          by (cases "unescape e") auto
        from p nq bs cs False u obtain k' where "parse_chars r0 = Some (k', r)"
          by (cases "parse_chars r0") auto
        from 2(3)[OF nq bs cs False u this] cs show ?thesis by simp
      qed
    next
      case False
      from p nq False have ctl: "\<not> (of_char c :: nat) < 32" by (auto split: if_splits)
      from p nq False ctl obtain k' where "parse_chars cs = Some (k', r)"
        by (cases "parse_chars cs") auto
      from 2(4)[OF nq False ctl this] show ?thesis by simp
    qed
  qed
qed

lemma parse_number_shorter: "parse_number nh s = Some (v, r) \<Longrightarrow> length r < length s"
proof -
  assume p: "parse_number nh s = Some (v, r)"
  from p have j: "json_number (takeWhile number_char s)" and r: "r = dropWhile number_char s"
    by (auto simp: parse_number_def Let_def split: if_splits)
  from json_number_head[OF j] have ne: "takeWhile number_char s \<noteq> []" by auto
  have "length (takeWhile number_char s) + length (dropWhile number_char s) = length s"
    using arg_cong[OF takeWhile_dropWhile_id[of number_char s], of length]
    by (simp del: takeWhile_dropWhile_id)
  with ne have "length (dropWhile number_char s) < length s"
    by (cases "takeWhile number_char s") simp_all
  with r show ?thesis by simp
qed

lemma parse_literal_shorter: "parse_literal nh s = Some (v, r) \<Longrightarrow> length r < length s"
proof -
  assume p: "parse_literal nh s = Some (v, r)"
  show ?thesis
  proof (cases "take 4 s = ''true'' \<or> take 5 s = ''false'' \<or> take 4 s = ''null''")
    case True
    then have "length (take 4 s) = 4 \<or> length (take 5 s) = 5" by auto
    then have l: "4 \<le> length s" by auto
    from p l True show ?thesis by (auto simp: parse_literal_def split: if_splits)
  next
    case False
    with p have "parse_number nh s = Some (v, r)" by (simp add: parse_literal_def)
    then show ?thesis by (rule parse_number_shorter)
  qed
qed

text \<open>
  A successful call consumes at least one character, and as many nested calls as the
  characters it consumed are enough for it.
\<close>

lemma parse_fuel_bound:
  "parse_value nh n s = Some (v, r) \<Longrightarrow>
     length r < length s \<and> parse_value nh (length s - length r) s = Some (v, r)"
  "parse_elements nh n acc s = Some (xs, r) \<Longrightarrow>
     length r < length s \<and> parse_elements nh (length s - length r) acc s = Some (xs, r)"
  "parse_members nh n acc' s = Some (fs, r) \<Longrightarrow>
     length r < length s \<and> parse_members nh (length s - length r) acc' s = Some (fs, r)"
proof (induction nh n s and nh n acc s and nh n acc' s arbitrary: v r and xs r and fs r
    rule: parse_value_parse_elements_parse_members.induct)
  case (1 nh s)
  then show ?case by simp
next
  case (2 nh n s)
  from 2(3) obtain c cs where sk: "skip_ws s = c # cs" by (cases "skip_ws s") auto
  note l = skip_ws_ConsD[OF sk]
  show ?case
  proof (cases "c = CHR ''{''")
    case True
    note brace = this
    from 2(3) sk brace obtain d ds where sk1: "skip_ws cs = d # ds" by (cases "skip_ws cs") auto
    note l1 = skip_ws_ConsD[OF sk1]
    show ?thesis
    proof (cases "d = CHR ''}''")
      case True
      with 2(3) sk brace sk1 have v: "v = JObj []" and r: "r = ds" by simp_all
      from l l1 r obtain m where m: "length s - length r = Suc m" by (cases "length s - length r") auto
      from l l1 r have "length r < length s" by simp
      moreover have "parse_value nh (Suc m) s = Some (v, r)"
        using sk brace sk1 True v r by simp
      ultimately show ?thesis by (simp add: m)
    next
      case False
      with 2(3) sk brace sk1
      obtain fs where pm: "parse_members nh n [] (d # ds) = Some (fs, r)" and v: "v = JObj fs"
        by auto
      from 2(1)[OF sk brace sk1 False pm]
      have lr: "length r < length (d # ds)"
        and b: "parse_members nh (length (d # ds) - length r) [] (d # ds) = Some (fs, r)" by simp_all
      from l l1 lr obtain m where m: "length s - length r = Suc m"
        and le: "length (d # ds) - length r \<le> m"
        by (cases "length s - length r") auto
      from parse_fuel_le(3)[OF b le]
      have "parse_value nh (Suc m) s = Some (v, r)"
        using sk brace sk1 False v by simp
      moreover from l l1 lr have "length r < length s" by simp
      ultimately show ?thesis by (simp add: m)
    qed
  next
    case False
    note nobrace = this
    show ?thesis
    proof (cases "c = CHR ''[''")
      case True
      note bracket = this
      from 2(3) sk nobrace bracket obtain d ds where sk1: "skip_ws cs = d # ds"
        by (cases "skip_ws cs") auto
      note l1 = skip_ws_ConsD[OF sk1]
      show ?thesis
      proof (cases "d = CHR '']''")
        case True
        with 2(3) sk nobrace bracket sk1 have v: "v = JArr []" and r: "r = ds" by simp_all
        from l l1 r obtain m where m: "length s - length r = Suc m"
          by (cases "length s - length r") auto
        from l l1 r have "length r < length s" by simp
        moreover have "parse_value nh (Suc m) s = Some (v, r)"
          using sk nobrace bracket sk1 True v r by simp
        ultimately show ?thesis by (simp add: m)
      next
        case False
        with 2(3) sk nobrace bracket sk1
        obtain xs where pe: "parse_elements nh n [] (d # ds) = Some (xs, r)" and v: "v = JArr xs"
          by auto
        from 2(2)[OF sk nobrace bracket sk1 False pe]
        have lr: "length r < length (d # ds)"
          and b: "parse_elements nh (length (d # ds) - length r) [] (d # ds) = Some (xs, r)"
          by simp_all
        from l l1 lr obtain m where m: "length s - length r = Suc m"
          and le: "length (d # ds) - length r \<le> m"
          by (cases "length s - length r") auto
        from parse_fuel_le(2)[OF b le]
        have "parse_value nh (Suc m) s = Some (v, r)"
          using sk nobrace bracket sk1 False v by simp
        moreover from l l1 lr have "length r < length s" by simp
        ultimately show ?thesis by (simp add: m)
      qed
    next
      case False
      note nobracket = this
      have lr: "length r < length s"
      proof (cases "c = CHR 0x22")
        case True
        with 2(3) sk nobrace nobracket obtain k where "parse_chars cs = Some (k, r)"
          by (cases "parse_chars cs") auto
        from parse_chars_shorter[OF this] l show ?thesis by simp
      next
        case False
        with 2(3) sk nobrace nobracket have "parse_literal nh (c # cs) = Some (v, r)" by simp
        from parse_literal_shorter[OF this] l show ?thesis by simp
      qed
      then obtain m where m: "length s - length r = Suc m" by (cases "length s - length r") auto
      have "parse_value nh (Suc m) s = parse_value nh (Suc n) s"
        using sk nobrace nobracket by simp
      with 2(3) lr m show ?thesis by simp
    qed
  qed
next
  case (3 nh acc s)
  then show ?case by simp
next
  case (4 nh n acc s)
  from 4(3) obtain v r1 where pv: "parse_value nh n s = Some (v, r1)"
    by (cases "parse_value nh n s") auto
  from 4(1)[OF pv] have l1: "length r1 < length s"
    and b1: "parse_value nh (length s - length r1) s = Some (v, r1)" by simp_all
  from 4(3) pv obtain c cs where sk: "skip_ws r1 = c # cs"
    by (cases "skip_ws r1") auto
  note l2 = skip_ws_ConsD[OF sk]
  show ?case
  proof (cases "c = CHR '',''")
    case True
    with 4(3) pv sk have pe: "parse_elements nh n (acc @ [v]) cs = Some (xs, r)" by simp
    from 4(2)[OF pv refl sk True pe] have l3: "length r < length cs"
      and b2: "parse_elements nh (length cs - length r) (acc @ [v]) cs = Some (xs, r)" by simp_all
    from l1 l2 l3 obtain m where m: "length s - length r = Suc m"
      and le1: "length s - length r1 \<le> m" and le2: "length cs - length r \<le> m"
      by (cases "length s - length r") auto
    from parse_fuel_le(1)[OF b1 le1] parse_fuel_le(2)[OF b2 le2]
    have "parse_elements nh (Suc m) acc s = Some (xs, r)"
      using sk True by simp
    moreover from l1 l2 l3 have "length r < length s" by simp
    ultimately show ?thesis by (simp add: m)
  next
    case False
    with 4(3) pv sk have close: "c = CHR '']''" and xs: "xs = acc @ [v]" and r: "r = cs"
      by (auto split: if_splits)
    from l1 l2 r obtain m where m: "length s - length r = Suc m"
      and le1: "length s - length r1 \<le> m"
      by (cases "length s - length r") auto
    from parse_fuel_le(1)[OF b1 le1]
    have "parse_elements nh (Suc m) acc s = Some (xs, r)"
      using sk False close xs r by simp
    moreover from l1 l2 r have "length r < length s" by simp
    ultimately show ?thesis by (simp add: m)
  qed
next
  case (5 nh acc s)
  then show ?case by simp
next
  case (6 nh n acc s)
  from 6(3) obtain c cs where sk: "skip_ws s = c # cs" by (cases "skip_ws s") auto
  from 6(3) sk have q: "c = CHR 0x22" by (auto split: if_splits)
  from 6(3) sk q obtain key r1 where pc: "parse_chars cs = Some (key, r1)"
    by (cases "parse_chars cs") auto
  from 6(3) sk q pc obtain d ds where sk1: "skip_ws r1 = d # ds"
    by (cases "skip_ws r1") auto
  from 6(3) sk q pc sk1 have col: "d = CHR '':''" by (auto split: if_splits)
  from 6(3) sk q pc sk1 col obtain v r2 where pv: "parse_value nh n ds = Some (v, r2)"
    by (cases "parse_value nh n ds") auto
  from 6(3) sk q pc sk1 col pv obtain e es where sk2: "skip_ws r2 = e # es"
    by (cases "skip_ws r2") auto
  from 6(1)[OF sk q pc refl sk1 col pv] have l3: "length r2 < length ds"
    and b1: "parse_value nh (length ds - length r2) ds = Some (v, r2)" by simp_all
  from skip_ws_ConsD[OF sk] parse_chars_shorter[OF pc] skip_ws_ConsD[OF sk1]
  have l0: "length ds < length s" by simp
  note l4 = skip_ws_ConsD[OF sk2]
  show ?case
  proof (cases "e = CHR '',''")
    case True
    with 6(3) sk q pc sk1 col pv sk2
    have pm: "parse_members nh n (set_prop acc key v) es = Some (fs, r)" by simp
    from 6(2)[OF sk q pc refl sk1 col pv refl sk2 True pm] have l5: "length r < length es"
      and b2: "parse_members nh (length es - length r) (set_prop acc key v) es = Some (fs, r)"
      by simp_all
    from l0 l3 l4 l5 obtain m where m: "length s - length r = Suc m"
      and le1: "length ds - length r2 \<le> m" and le2: "length es - length r \<le> m"
      by (cases "length s - length r") auto
    from parse_fuel_le(1)[OF b1 le1] parse_fuel_le(3)[OF b2 le2]
    have "parse_members nh (Suc m) acc s = Some (fs, r)"
      using sk q pc sk1 col sk2 True by simp
    moreover from l0 l3 l4 l5 have "length r < length s" by simp
    ultimately show ?thesis by (simp add: m)
  next
    case False
    with 6(3) sk q pc sk1 col pv sk2
    have close: "e = CHR ''}''" and fs: "fs = set_prop acc key v" and r: "r = es"
      by (auto split: if_splits)
    from l0 l3 l4 r obtain m where m: "length s - length r = Suc m"
      and le1: "length ds - length r2 \<le> m"
      by (cases "length s - length r") auto
    from parse_fuel_le(1)[OF b1 le1]
    have "parse_members nh (Suc m) acc s = Some (fs, r)"
      using sk q pc sk1 col sk2 False close fs r by simp
    moreover from l0 l3 l4 r have "length r < length s" by simp
    ultimately show ?thesis by (simp add: m)
  qed
qed

text \<open>
  So \<open>parse_json\<close> does not depend on its bound: whatever a larger one would read, the one
  above the length of the text reads too.
\<close>

lemma parse_value_enough:
  assumes "parse_value nh n s = Some (v, r)"
  shows "parse_value nh (Suc (length s)) s = Some (v, r)"
proof -
  from parse_fuel_bound(1)[OF assms]
  have "parse_value nh (length s - length r) s = Some (v, r)" by simp
  then show ?thesis by (rule parse_fuel_le(1)) simp
qed

lemma parse_json_any_bound:
  "parse_json nh s = None \<Longrightarrow> parse_value nh n s = Some (v, r) \<Longrightarrow> skip_ws r \<noteq> []"
proof
  assume none: "parse_json nh s = None" and p: "parse_value nh n s = Some (v, r)" and e: "skip_ws r = []"
  from parse_value_enough[OF p] e have "parse_json nh s = Some v"
    by (simp add: parse_json_def del: parse_value.simps)
  with none show False by simp
qed

section \<open>The engine of the examples reads back its numbers\<close>

lemma is_digit_digit_char: "d < 10 \<Longrightarrow> is_digit (digit_char d)"
  by (simp add: is_digit_def digit_char_def)

lemma digit_val_digit_char: "d < 10 \<Longrightarrow> digit_val (digit_char d) = d"
  by (simp add: digit_val_def digit_char_def)

lemma digit_char_eq_0: "d < 10 \<Longrightarrow> digit_char d = CHR ''0'' \<longleftrightarrow> d = 0"
proof -
  assume d: "d < 10"
  have "digit_char d = CHR ''0'' \<longleftrightarrow> (of_char (digit_char d) :: nat) = of_char (CHR ''0'')"
    by (simp only: of_char_eq_iff)
  with d show ?thesis by (simp add: digit_char_def)
qed

lemma digits_all_digit: "list_all is_digit (digits n)"
proof (induction n rule: digits.induct)
  case (1 n)
  show ?case
  proof (cases "n < 10")
    case True
    then show ?thesis by (subst digits.simps) (simp add: is_digit_digit_char)
  next
    case False
    with 1 show ?thesis by (subst digits.simps) (simp add: is_digit_digit_char)
  qed
qed

lemma digits_nonempty: "digits n \<noteq> []"
  by (subst digits.simps) simp

lemma nat_of_digits_snoc: "nat_of_digits (ds @ [c]) = 10 * nat_of_digits ds + digit_val c"
  by (simp add: nat_of_digits_def)

lemma nat_of_digits_digits: "nat_of_digits (digits n) = n"
proof (induction n rule: digits.induct)
  case (1 n)
  show ?case
  proof (cases "n < 10")
    case True
    then show ?thesis
      by (subst digits.simps) (simp add: nat_of_digits_def digit_val_digit_char)
  next
    case False
    with 1 show ?thesis
      by (subst digits.simps) (simp add: nat_of_digits_snoc digit_val_digit_char)
  qed
qed

lemma hd_digits: "hd (digits n) = CHR ''0'' \<Longrightarrow> n = 0"
proof (induction n rule: digits.induct)
  case (1 n)
  show ?case
  proof (cases "n < 10")
    case True
    with 1(2) show ?thesis by (subst (asm) digits.simps) (simp add: digit_char_eq_0)
  next
    case False
    with 1(2) have "hd (digits (n div 10)) = CHR ''0''"
      by (subst (asm) digits.simps) (simp add: digits_nonempty)
    with 1(1) False have "n div 10 = 0" by simp
    with False show ?thesis by simp
  qed
qed

lemma digits_0: "digits 0 = ''0''"
  using digit_char_eq_0[of 0] by (subst digits.simps) simp

lemma length_digits_0: "1 < length (digits n) \<Longrightarrow> hd (digits n) \<noteq> CHR ''0''"
proof
  assume l: "1 < length (digits n)" and "hd (digits n) = CHR ''0''"
  then have "n = 0" by (intro hd_digits)
  with l show False by (simp add: digits_0)
qed

lemma hd_digits_is_digit: "is_digit (hd (digits n))"
  using digits_all_digit[of n] digits_nonempty[of n] by (cases "digits n") simp_all


lemma integers_simps [simp]:
  "number_literal integers = IntNum"
  "to_number integers = int_of_string"
  "num_text integers = int_text"
  "num_of_token integers = int_of_token"
  by (simp_all add: integers_def)

lemma is_digit_not_minus: "is_digit c \<Longrightarrow> c \<noteq> CHR ''-''"
  by (auto simp: is_digit_def)

lemma takeWhile_digits: "takeWhile is_digit (digits n) = digits n"
  using digits_all_digit[of n] by (simp add: takeWhile_eq_all_conv list_all_iff)

lemma json_number_digits: "json_number (digits n)"
proof -
  have m: "hd (digits n) \<noteq> CHR ''-''" by (rule is_digit_not_minus[OF hd_digits_is_digit])
  have z: "hd (digits n) = CHR ''0'' \<Longrightarrow> length (digits n) = 1"
    using hd_digits[of n] by (auto simp: digits_0)
  show ?thesis
    using z by (simp add: json_number_def Let_def m takeWhile_digits digits_nonempty
        digits_all_digit[unfolded list_all_iff] fraction_part_def exponent_part_def)
qed

lemma json_number_minus_digits: "json_number (CHR ''-'' # digits n)"
proof -
  have z: "hd (digits n) = CHR ''0'' \<Longrightarrow> length (digits n) = 1"
    using hd_digits[of n] by (auto simp: digits_0)
  show ?thesis
    using z by (simp add: json_number_def Let_def takeWhile_digits digits_nonempty
        digits_all_digit[unfolded list_all_iff] fraction_part_def exponent_part_def)
qed

lemma signed_digits_digits:
  "signed_digits neg (digits n) = IntNum (if neg then - int n else int n)"
  by (simp add: signed_digits_def digits_nonempty digits_all_digit nat_of_digits_digits)

lemma reads_back_integers: "reads_back_numbers integers"
  unfolding reads_back_numbers_def
proof
  fix x
  show "num_text integers x = ''null''
        \<or> (json_number (num_text integers x) \<and> num_of_token integers (num_text integers x) = x)"
  proof (cases x)
    case NaN
    then show ?thesis by simp
  next
    case (IntNum i)
    show ?thesis
    proof (cases "i < 0")
      case True
      with IntNum show ?thesis
        by (simp add: json_number_minus_digits int_of_token_def signed_digits_digits)
    next
      case False
      have m: "hd (digits (nat i)) \<noteq> CHR ''-''" by (rule is_digit_not_minus[OF hd_digits_is_digit])
      from False IntNum show ?thesis
        by (simp add: json_number_digits int_of_token_def signed_digits_digits m)
    qed
  qed
qed

section \<open>What the operations store\<close>

lemma getState_CreateAsset:
  "\<not> AssetExists ctx id' \<Longrightarrow>
     getState (snd (CreateAsset h ctx id' color size' owner appraisedValue)) id'
       = encode h (JObj (asset_literal id' color (JNum (Number h size')) owner
                           (JNum (Number h appraisedValue))))"
  by (simp add: CreateAsset_def Let_def getState_putState)

lemma getState_UpdateAsset:
  "AssetExists ctx id' \<Longrightarrow>
     getState (snd (UpdateAsset h ctx id' color size' owner appraisedValue)) id'
       = encode h (JObj (asset_literal id' color (JStr size') owner (JStr appraisedValue)))"
  by (simp add: UpdateAsset_def Let_def getState_putState)

lemma not_array_index:
  "\<not> is_array_index ''AppraisedValue''" "\<not> is_array_index ''Color''" "\<not> is_array_index ''ID''"
  "\<not> is_array_index ''Owner''" "\<not> is_array_index ''Size''" "\<not> is_array_index ''docType''"
  by (simp_all add: is_array_index_def is_digit_def)

text \<open>The record decoded from what \<^verbatim>\<open>CreateAsset\<close> and \<^verbatim>\<open>UpdateAsset\<close> wrote.\<close>

lemma decoded_asset_literal:
  assumes e: "reads_back_numbers e"
  shows "parse_json e (encode (js e) (JObj (asset_literal i c s ow a)))
           = Some (JObj [(''AppraisedValue'', read_back e (sort_keys a)), (''Color'', JStr c),
                         (''ID'', JStr i), (''Owner'', JStr ow),
                         (''Size'', read_back e (sort_keys s))])"
  unfolding parse_json_encode[OF e]
  by (simp add: asset_literal_def set_prop_def listed_before_def not_array_index)

lemma parse_json_Nil: "parse_json e [] = None"
  by (simp add: parse_json_def skip_ws_def)

lemma parsed_exists: "parse_json e (getState ctx id') = Some v \<Longrightarrow> AssetExists ctx id'"
  by (cases "getState ctx id'") (simp_all add: AssetExists_def parse_json_Nil)

lemma parse_json_JObj_wf:
  assumes "parse_json e s = Some (JObj fs)"
  shows "distinct (map fst fs)" "\<forall>(k, v) \<in> set fs. distinct_keys v"
  using parse_json_wf[OF assms] unfolding distinct_keys_JObj by blast+

lemma TransferAsset_record:
  assumes p: "parse_json e (getState ctx id') = Some (JObj asset)"
  shows "TransferAsset (js e) ctx id' newOwner
           = (Inr (get_prop asset ''Owner''),
              putState ctx id' (encode (js e) (JObj (set_prop asset ''Owner'' (JStr newOwner)))))"
proof -
  from parsed_exists[OF p] have "ReadAsset ctx id' = Inr (getState ctx id')"
    by (simp add: ReadAsset_def AssetExists_def Let_def)
  with p show ?thesis by (simp add: TransferAsset_def Let_def)
qed

lemma TransferAsset_decoded:
  assumes e: "reads_back_numbers e"
    and p: "parse_json e (getState ctx id') = Some (JObj asset)"
  shows "parse_json e (getState (snd (TransferAsset (js e) ctx id' newOwner)) id')
           = Some (read_back e (sort_keys (JObj (set_prop asset ''Owner'' (JStr newOwner)))))"
  by (simp add: TransferAsset_record[OF p] getState_putState parse_json_encode[OF e]
      del: sort_keys.simps read_back.simps)

subsection \<open>Every operation keeps a store of records\<close>

lemma is_record_text_iff:
  "is_record_text e t \<longleftrightarrow> (\<exists>asset. parse_json e t = Some (JObj asset) \<and> finite_nums e (JObj asset))"
  by (auto simp: is_record_text_def split: option.splits json.splits)

lemma set_putState: "set (putState w k v) \<subseteq> insert (k, v) (set w)"
proof (induction w)
  case Nil
  show ?case by simp
next
  case (Cons a w)
  obtain k' v' where a: "a = (k', v')" by (cases a)
  from Cons show ?case unfolding a by (auto split: if_splits)
qed

lemma all_records_putState:
  "all_records e ctx \<Longrightarrow> is_record_text e v \<Longrightarrow> all_records e (putState ctx k v)"
  using set_putState[of ctx k v] by (auto simp: all_records_def list_all_iff)

lemma all_records_deleteState: "all_records e ctx \<Longrightarrow> all_records e (deleteState ctx k)"
  by (auto simp: all_records_def list_all_iff deleteState_def)

lemma all_records_Nil: "all_records e []"
  by (simp add: all_records_def)

lemma is_record_text_encode:
  assumes e: "reads_back_numbers e"
  shows "is_record_text e (encode (js e) (JObj fs))"
proof -
  obtain fs' where r: "read_back e (sort_keys (JObj fs)) = JObj fs'" by simp
  from finite_nums_read_back[of e "sort_keys (JObj fs)"] r have "finite_nums e (JObj fs')"
    by (simp only:)
  with parse_json_encode[OF e, of "JObj fs"] r show ?thesis
    unfolding is_record_text_iff by (simp only:) blast
qed

lemma all_records_CreateAsset:
  "reads_back_numbers e \<Longrightarrow> all_records e ctx \<Longrightarrow>
     all_records e (snd (CreateAsset (js e) ctx id' color size' owner appraisedValue))"
  by (simp add: CreateAsset_def Let_def all_records_putState is_record_text_encode)

lemma all_records_UpdateAsset:
  "reads_back_numbers e \<Longrightarrow> all_records e ctx \<Longrightarrow>
     all_records e (snd (UpdateAsset (js e) ctx id' color size' owner appraisedValue))"
  by (simp add: UpdateAsset_def Let_def all_records_putState is_record_text_encode)

lemma all_records_DeleteAsset: "all_records e ctx \<Longrightarrow> all_records e (snd (DeleteAsset ctx id'))"
  by (simp add: DeleteAsset_def all_records_deleteState)

lemma all_records_present:
  assumes "all_records e ctx" "AssetExists ctx id'"
  shows "\<exists>asset. parse_json e (getState ctx id') = Some (JObj asset) \<and> finite_nums e (JObj asset)"
proof -
  from assms(2) obtain v where v: "map_of ctx id' = Some v"
    by (cases "map_of ctx id'") (auto simp: AssetExists_def getState_def)
  then have "(id', v) \<in> set ctx" by (rule map_of_SomeD)
  with assms(1) have "is_record_text e v" by (auto simp: all_records_def list_all_iff)
  with v show ?thesis by (simp add: getState_def is_record_text_iff)
qed

lemma all_records_TransferAsset:
  assumes e: "reads_back_numbers e" and a: "all_records e ctx"
  shows "all_records e (snd (TransferAsset (js e) ctx id' newOwner))"
proof (cases "AssetExists ctx id'")
  case False
  with a show ?thesis by (simp add: TransferAsset_def ReadAsset_def AssetExists_def Let_def)
next
  case True
  from all_records_present[OF a True] obtain asset where
    p: "parse_json e (getState ctx id') = Some (JObj asset)" by blast
  from a show ?thesis
    by (simp add: TransferAsset_record[OF p] all_records_putState is_record_text_encode[OF e])
qed

lemma all_records_foldl_InitLedger_put:
  "reads_back_numbers e \<Longrightarrow> all_records e ctx \<Longrightarrow>
     all_records e (foldl (InitLedger_put (js e)) ctx as)"
  by (induction as arbitrary: ctx)
     (simp_all add: InitLedger_put_def Let_def all_records_putState is_record_text_encode)

lemma all_records_InitLedger:
  "reads_back_numbers e \<Longrightarrow> all_records e ctx \<Longrightarrow> all_records e (snd (InitLedger (js e) ctx))"
  by (simp add: InitLedger_def all_records_foldl_InitLedger_put)

section \<open>Create, read, update and transfer\<close>

text \<open>
  Claim C2 (create/read round trip), as the code has it. After \<^verbatim>\<open>CreateAsset\<close> on an absent
  identifier, \<^verbatim>\<open>ReadAsset\<close> returns the stored bytes as they are, and they decode to the record
  with the identifier, colour and owner given. Its \<open>Size\<close> is the number \<^verbatim>\<open>Number(size)\<close> when
  that number is written as a number, and \<^verbatim>\<open>null\<close> when it is written \<^verbatim>\<open>null\<close>, which is how
  \<open>NaN\<close> and the infinities are written; likewise \<open>AppraisedValue\<close>. This holds for all
  strings and on every engine that reads back the numbers it writes.
\<close>

theorem CreateAsset_ReadAsset_roundtrip:
  assumes e: "reads_back_numbers e" and absent: "\<not> AssetExists ctx id'"
  shows "ReadAsset (snd (CreateAsset (js e) ctx id' color size' owner appraisedValue)) id'
           = Inr (getState (snd (CreateAsset (js e) ctx id' color size' owner appraisedValue)) id')
       \<and> JSON_parse (js e) (getState (snd (CreateAsset (js e) ctx id' color size' owner appraisedValue)) id')
           = Some (JObj [(''AppraisedValue'',
                            if num_text e (Number (js e) appraisedValue) = ''null'' then JNull
                            else JNum (Number (js e) appraisedValue)),
                         (''Color'', JStr color), (''ID'', JStr id'), (''Owner'', JStr owner),
                         (''Size'',
                            if num_text e (Number (js e) size') = ''null'' then JNull
                            else JNum (Number (js e) size'))])"
proof -
  let ?asset = "JObj (asset_literal id' color (JNum (Number (js e) size')) owner
                        (JNum (Number (js e) appraisedValue)))"
  let ?ctx = "snd (CreateAsset (js e) ctx id' color size' owner appraisedValue)"
  have st: "getState ?ctx id' = encode (js e) ?asset"
    by (rule getState_CreateAsset[OF absent])
  have "encode (js e) ?asset \<noteq> []" by (rule encode_JObj_nonempty)
  with st have r: "ReadAsset ?ctx id' = Inr (getState ?ctx id')"
    by (simp add: ReadAsset_def Let_def)
  from decoded_asset_literal[OF e, of id' color "JNum (Number (js e) size')" owner
      "JNum (Number (js e) appraisedValue)"] st
  have "JSON_parse (js e) (getState ?ctx id')
           = Some (JObj [(''AppraisedValue'',
                            if num_text e (Number (js e) appraisedValue) = ''null'' then JNull
                            else JNum (Number (js e) appraisedValue)),
                         (''Color'', JStr color), (''ID'', JStr id'), (''Owner'', JStr owner),
                         (''Size'',
                            if num_text e (Number (js e) size') = ''null'' then JNull
                            else JNum (Number (js e) size'))])"
    by simp
  with r show ?thesis by (simp only: simp_thms)
qed

text \<open>The example of the specification: \<^verbatim>\<open>CreateAsset("a1","blue",5,"Tomoko",300)\<close>.\<close>

theorem CreateAsset_ReadAsset_roundtrip_witness:
  \<open>reads_back_numbers integers \<and> \<not> AssetExists [] ''a1''
   \<and> ReadAsset (snd (CreateAsset (js integers) [] ''a1'' ''blue'' ''5'' ''Tomoko'' ''300'')) ''a1''
       = Inr ''{"AppraisedValue":300,"Color":"blue","ID":"a1","Owner":"Tomoko","Size":5}''
   \<and> JSON_parse (js integers) ''{"AppraisedValue":300,"Color":"blue","ID":"a1","Owner":"Tomoko","Size":5}''
       = Some (JObj [(''AppraisedValue'', JNum (IntNum 300)), (''Color'', JStr ''blue''),
                     (''ID'', JStr ''a1''), (''Owner'', JStr ''Tomoko''), (''Size'', JNum (IntNum 5))])\<close>
proof -
  have a: "\<not> AssetExists [] ''a1''" by (simp add: AssetExists_def getState_def)
  have s: \<open>getState (snd (CreateAsset (js integers) [] ''a1'' ''blue'' ''5'' ''Tomoko'' ''300'')) ''a1''
       = ''{"AppraisedValue":300,"Color":"blue","ID":"a1","Owner":"Tomoko","Size":5}''\<close>
    by code_simp
  have n: "Number (js integers) ''5'' = IntNum 5" "Number (js integers) ''300'' = IntNum 300"
    by code_simp+
  have t: "num_text integers (IntNum 5) = ''5''" "num_text integers (IntNum 300) = ''300''"
    by code_simp+
  note r = CreateAsset_ReadAsset_roundtrip[OF reads_back_integers a,
      of "''blue''" "''5''" "''Tomoko''" "''300''"]
  from r[THEN conjunct1]
  have 1: \<open>ReadAsset (snd (CreateAsset (js integers) [] ''a1'' ''blue'' ''5'' ''Tomoko'' ''300'')) ''a1''
       = Inr ''{"AppraisedValue":300,"Color":"blue","ID":"a1","Owner":"Tomoko","Size":5}''\<close>
    by (simp only: s)
  from r[THEN conjunct2]
  have 2: \<open>JSON_parse (js integers) ''{"AppraisedValue":300,"Color":"blue","ID":"a1","Owner":"Tomoko","Size":5}''
       = Some (JObj [(''AppraisedValue'', JNum (IntNum 300)), (''Color'', JStr ''blue''),
                     (''ID'', JStr ''a1''), (''Owner'', JStr ''Tomoko''), (''Size'', JNum (IntNum 5))])\<close>
    unfolding s n t by simp
  show ?thesis
    by (intro conjI) (rule reads_back_integers, rule a, rule 1, rule 2)
qed

text \<open>
  A size that is no numeric literal: \<^verbatim>\<open>Number("abc")\<close> is \<open>NaN\<close>, the encoder writes \<^verbatim>\<open>null\<close>,
  and the record read back has \<open>Size\<close> \<^verbatim>\<open>null\<close>, which is no number and not the value given.
\<close>

theorem CreateAsset_ReadAsset_counterexample:
  \<open>ReadAsset (snd (CreateAsset (js integers) [] ''a1'' ''blue'' ''abc'' ''Tomoko'' ''300'')) ''a1''
       = Inr ''{"AppraisedValue":300,"Color":"blue","ID":"a1","Owner":"Tomoko","Size":null}''
   \<and> JSON_parse (js integers) ''{"AppraisedValue":300,"Color":"blue","ID":"a1","Owner":"Tomoko","Size":null}''
       = Some (JObj [(''AppraisedValue'', JNum (IntNum 300)), (''Color'', JStr ''blue''),
                     (''ID'', JStr ''a1''), (''Owner'', JStr ''Tomoko''), (''Size'', JNull)])\<close>
  by code_simp

text \<open>
  Claim C6 (coercion asymmetry), as the code has it. For all strings \<open>size\<close> and
  \<open>appraisedValue\<close>: \<^verbatim>\<open>CreateAsset\<close> stores the encoding of the record that holds the numbers
  \<^verbatim>\<open>Number(size)\<close> and \<^verbatim>\<open>Number(appraisedValue)\<close>, and the record stored has each as a number
  when it is written as a number and as \<^verbatim>\<open>null\<close> when it is \<open>NaN\<close> or infinite;
  \<^verbatim>\<open>UpdateAsset\<close> stores the encoding of the record that holds the two strings themselves, and
  the record stored has them as those strings.
\<close>

theorem coercion_asymmetry:
  assumes e: "reads_back_numbers e"
  shows
  "(\<not> AssetExists ctx id' \<longrightarrow>
      getState (snd (CreateAsset (js e) ctx id' color size' owner appraisedValue)) id'
        = encode (js e) (JObj [(''ID'', JStr id'), (''Color'', JStr color),
                               (''Size'', JNum (Number (js e) size')), (''Owner'', JStr owner),
                               (''AppraisedValue'', JNum (Number (js e) appraisedValue))])
      \<and> JSON_parse (js e) (getState (snd (CreateAsset (js e) ctx id' color size' owner appraisedValue)) id')
        = Some (JObj [(''AppraisedValue'',
                         if num_text e (Number (js e) appraisedValue) = ''null'' then JNull
                         else JNum (Number (js e) appraisedValue)),
                      (''Color'', JStr color), (''ID'', JStr id'), (''Owner'', JStr owner),
                      (''Size'',
                         if num_text e (Number (js e) size') = ''null'' then JNull
                         else JNum (Number (js e) size'))]))
   \<and> (AssetExists ctx id' \<longrightarrow>
      getState (snd (UpdateAsset (js e) ctx id' color size' owner appraisedValue)) id'
        = encode (js e) (JObj [(''ID'', JStr id'), (''Color'', JStr color), (''Size'', JStr size'),
                               (''Owner'', JStr owner), (''AppraisedValue'', JStr appraisedValue)])
      \<and> JSON_parse (js e) (getState (snd (UpdateAsset (js e) ctx id' color size' owner appraisedValue)) id')
        = Some (JObj [(''AppraisedValue'', JStr appraisedValue), (''Color'', JStr color),
                      (''ID'', JStr id'), (''Owner'', JStr owner), (''Size'', JStr size')]))"
proof (intro conjI impI)
  assume "\<not> AssetExists ctx id'"
  from getState_CreateAsset[OF this, of "js e" color size' owner appraisedValue]
  show "getState (snd (CreateAsset (js e) ctx id' color size' owner appraisedValue)) id'
        = encode (js e) (JObj [(''ID'', JStr id'), (''Color'', JStr color),
                               (''Size'', JNum (Number (js e) size')), (''Owner'', JStr owner),
                               (''AppraisedValue'', JNum (Number (js e) appraisedValue))])"
    by (simp add: asset_literal_def)
next
  assume a: "\<not> AssetExists ctx id'"
  from decoded_asset_literal[OF e, of id' color "JNum (Number (js e) size')" owner
      "JNum (Number (js e) appraisedValue)"] getState_CreateAsset[OF a, of "js e" color size' owner appraisedValue]
  show "JSON_parse (js e) (getState (snd (CreateAsset (js e) ctx id' color size' owner appraisedValue)) id')
        = Some (JObj [(''AppraisedValue'',
                         if num_text e (Number (js e) appraisedValue) = ''null'' then JNull
                         else JNum (Number (js e) appraisedValue)),
                      (''Color'', JStr color), (''ID'', JStr id'), (''Owner'', JStr owner),
                      (''Size'',
                         if num_text e (Number (js e) size') = ''null'' then JNull
                         else JNum (Number (js e) size'))])"
    by simp
next
  assume x: "AssetExists ctx id'"
  from getState_UpdateAsset[OF x, of "js e" color size' owner appraisedValue]
  show "getState (snd (UpdateAsset (js e) ctx id' color size' owner appraisedValue)) id'
        = encode (js e) (JObj [(''ID'', JStr id'), (''Color'', JStr color), (''Size'', JStr size'),
                               (''Owner'', JStr owner), (''AppraisedValue'', JStr appraisedValue)])"
    by (simp add: asset_literal_def)
next
  assume x: "AssetExists ctx id'"
  from decoded_asset_literal[OF e, of id' color "JStr size'" owner "JStr appraisedValue"]
    getState_UpdateAsset[OF x, of "js e" color size' owner appraisedValue]
  show "JSON_parse (js e) (getState (snd (UpdateAsset (js e) ctx id' color size' owner appraisedValue)) id')
        = Some (JObj [(''AppraisedValue'', JStr appraisedValue), (''Color'', JStr color),
                      (''ID'', JStr id'), (''Owner'', JStr owner), (''Size'', JStr size')])"
    by simp
qed

text \<open>The same arguments \<^verbatim>\<open>"5"\<close> and \<^verbatim>\<open>"300"\<close> on both paths.\<close>

theorem coercion_asymmetry_witness:
  \<open>reads_back_numbers integers \<and> \<not> AssetExists [] ''a1''
   \<and> getState (snd (CreateAsset (js integers) [] ''a1'' ''blue'' ''5'' ''Tomoko'' ''300'')) ''a1''
       = ''{"AppraisedValue":300,"Color":"blue","ID":"a1","Owner":"Tomoko","Size":5}''
   \<and> JSON_parse (js integers)
         (getState (snd (CreateAsset (js integers) [] ''a1'' ''blue'' ''5'' ''Tomoko'' ''300'')) ''a1'')
       = Some (JObj [(''AppraisedValue'', JNum (IntNum 300)), (''Color'', JStr ''blue''),
                     (''ID'', JStr ''a1''), (''Owner'', JStr ''Tomoko''), (''Size'', JNum (IntNum 5))])
   \<and> AssetExists [(''a1'', ''{}'')] ''a1''
   \<and> getState (snd (UpdateAsset (js integers) [(''a1'', ''{}'')] ''a1'' ''blue'' ''5'' ''Tomoko'' ''300'')) ''a1''
       = ''{"AppraisedValue":"300","Color":"blue","ID":"a1","Owner":"Tomoko","Size":"5"}''
   \<and> JSON_parse (js integers)
         (getState (snd (UpdateAsset (js integers) [(''a1'', ''{}'')] ''a1'' ''blue'' ''5'' ''Tomoko'' ''300'')) ''a1'')
       = Some (JObj [(''AppraisedValue'', JStr ''300''), (''Color'', JStr ''blue''),
                     (''ID'', JStr ''a1''), (''Owner'', JStr ''Tomoko''), (''Size'', JStr ''5'')])\<close>
proof -
  have a: "\<not> AssetExists [] ''a1''" by (simp add: AssetExists_def getState_def)
  have x: \<open>AssetExists [(''a1'', ''{}'')] ''a1''\<close> by (simp add: AssetExists_def getState_def)
  have n: "Number (js integers) ''5'' = IntNum 5" "Number (js integers) ''300'' = IntNum 300"
    by code_simp+
  have t: "num_text integers (IntNum 5) = ''5''" "num_text integers (IntNum 300) = ''300''"
    by code_simp+
  have c: \<open>encode (js integers) (JObj [(''ID'', JStr ''a1''), (''Color'', JStr ''blue''),
                        (''Size'', JNum (IntNum 5)), (''Owner'', JStr ''Tomoko''),
                        (''AppraisedValue'', JNum (IntNum 300))])
       = ''{"AppraisedValue":300,"Color":"blue","ID":"a1","Owner":"Tomoko","Size":5}''\<close>
    by code_simp
  have u: \<open>encode (js integers) (JObj [(''ID'', JStr ''a1''), (''Color'', JStr ''blue''),
                        (''Size'', JStr ''5''), (''Owner'', JStr ''Tomoko''),
                        (''AppraisedValue'', JStr ''300'')])
       = ''{"AppraisedValue":"300","Color":"blue","ID":"a1","Owner":"Tomoko","Size":"5"}''\<close>
    by code_simp
  note t1 = coercion_asymmetry[OF reads_back_integers,
      of "[]" "''a1''" "''blue''" "''5''" "''Tomoko''" "''300''", THEN conjunct1, rule_format, OF a]
  note t2 = coercion_asymmetry[OF reads_back_integers,
      of "[(''a1'', ''{}'')]" "''a1''" "''blue''" "''5''" "''Tomoko''" "''300''",
      THEN conjunct2, rule_format, OF x]
  from t1[THEN conjunct1]
  have 1: \<open>getState (snd (CreateAsset (js integers) [] ''a1'' ''blue'' ''5'' ''Tomoko'' ''300'')) ''a1''
       = ''{"AppraisedValue":300,"Color":"blue","ID":"a1","Owner":"Tomoko","Size":5}''\<close>
    by (simp only: n c)
  from t1[THEN conjunct2]
  have 2: \<open>JSON_parse (js integers)
         (getState (snd (CreateAsset (js integers) [] ''a1'' ''blue'' ''5'' ''Tomoko'' ''300'')) ''a1'')
       = Some (JObj [(''AppraisedValue'', JNum (IntNum 300)), (''Color'', JStr ''blue''),
                     (''ID'', JStr ''a1''), (''Owner'', JStr ''Tomoko''), (''Size'', JNum (IntNum 5))])\<close>
    unfolding n t by simp
  from t2[THEN conjunct1]
  have 3: \<open>getState (snd (UpdateAsset (js integers) [(''a1'', ''{}'')] ''a1'' ''blue'' ''5'' ''Tomoko'' ''300'')) ''a1''
       = ''{"AppraisedValue":"300","Color":"blue","ID":"a1","Owner":"Tomoko","Size":"5"}''\<close>
    by (simp only: u)
  show ?thesis
    by (intro conjI)
       (rule reads_back_integers, rule a, rule 1, rule 2, rule x, rule 3, rule t2[THEN conjunct2])
qed

text \<open>
  Two arguments that are no numeric literals: \<^verbatim>\<open>Number\<close> gives \<open>NaN\<close> for both, and
  \<^verbatim>\<open>CreateAsset\<close> stores \<^verbatim>\<open>null\<close> in both fields, which is not of numeric type.
\<close>

theorem coercion_asymmetry_counterexample:
  \<open>getState (snd (CreateAsset (js integers) [] ''a2'' ''red'' ''large'' ''Brad'' ''n/a'')) ''a2''
       = ''{"AppraisedValue":null,"Color":"red","ID":"a2","Owner":"Brad","Size":null}''
   \<and> JSON_parse (js integers) ''{"AppraisedValue":null,"Color":"red","ID":"a2","Owner":"Brad","Size":null}''
       = Some (JObj [(''AppraisedValue'', JNull), (''Color'', JStr ''red''),
                     (''ID'', JStr ''a2''), (''Owner'', JStr ''Brad''), (''Size'', JNull)])\<close>
  by code_simp

text \<open>
  Claim C4 (transfer semantics). On an absent identifier \<^verbatim>\<open>TransferAsset\<close> throws "does not
  exist" and writes nothing. When the value stored under the identifier decodes to a record,
  as every value the contract writes does, it returns the \<open>Owner\<close> of that record and stores
  the canonical encoding of the record with \<open>Owner\<close> set to the new owner. The record stored
  afterwards has the new owner; each other field is there exactly when it was, as it is read
  back from its canonical text. It has the canonical encoding it had, and it is the value it
  had when the numbers in it are finite (\<^verbatim>\<open>JSON.parse\<close> reads a number too large for a
  double as an infinity, which is written \<^verbatim>\<open>null\<close>; no operation of the contract writes
  such a number).
\<close>

theorem TransferAsset_semantics:
  assumes e: "reads_back_numbers e"
  shows
  "(\<not> AssetExists ctx id' \<longrightarrow> TransferAsset (js e) ctx id' newOwner = (Inl (NotFound id'), ctx))
   \<and> (JSON_parse (js e) (getState ctx id') = Some (JObj asset) \<longrightarrow>
        AssetExists ctx id'
      \<and> fst (TransferAsset (js e) ctx id' newOwner) = Inr (get_prop asset ''Owner'')
      \<and> getState (snd (TransferAsset (js e) ctx id' newOwner)) id'
          = encode (js e) (JObj (set_prop asset ''Owner'' (JStr newOwner)))
      \<and> (\<exists>asset'.
            JSON_parse (js e) (getState (snd (TransferAsset (js e) ctx id' newOwner)) id')
              = Some (JObj asset')
          \<and> get_prop asset' ''Owner'' = Some (JStr newOwner)
          \<and> (\<forall>k. k \<noteq> ''Owner'' \<longrightarrow>
                get_prop asset' k = map_option (\<lambda>v. read_back e (sort_keys v)) (get_prop asset k))
          \<and> (\<forall>k. k \<noteq> ''Owner'' \<longrightarrow>
                map_option (encode (js e)) (get_prop asset' k)
                  = map_option (encode (js e)) (get_prop asset k))
          \<and> (\<forall>k v. k \<noteq> ''Owner'' \<longrightarrow> get_prop asset k = Some v \<longrightarrow> finite_nums e v \<longrightarrow>
                map_option as_mapping (get_prop asset' k) = Some (as_mapping v))))"
proof (intro conjI impI)
  assume "\<not> AssetExists ctx id'"
  then show "TransferAsset (js e) ctx id' newOwner = (Inl (NotFound id'), ctx)"
    by (simp add: TransferAsset_def ReadAsset_def AssetExists_def Let_def)
next
  assume "JSON_parse (js e) (getState ctx id') = Some (JObj asset)"
  then have p: "parse_json e (getState ctx id') = Some (JObj asset)" by simp
  from parsed_exists[OF p] show "AssetExists ctx id'" .
  show "fst (TransferAsset (js e) ctx id' newOwner) = Inr (get_prop asset ''Owner'')"
    by (simp add: TransferAsset_record[OF p])
  show "getState (snd (TransferAsset (js e) ctx id' newOwner)) id'
          = encode (js e) (JObj (set_prop asset ''Owner'' (JStr newOwner)))"
    by (simp add: TransferAsset_record[OF p] getState_putState)
  note d = parse_json_JObj_wf(1)[OF p] and w = parse_json_JObj_wf(2)[OF p]
  let ?set = "set_prop asset ''Owner'' (JStr newOwner)"
  have d': "distinct (map fst ?set)" by (rule distinct_set_prop[OF d])
  obtain asset' where r: "read_back e (sort_keys (JObj ?set)) = JObj asset'" by simp
  have 1: "JSON_parse (js e) (getState (snd (TransferAsset (js e) ctx id' newOwner)) id')
              = Some (JObj asset')"
    using TransferAsset_decoded[OF e p, of newOwner] r by (simp only: js_simps)
  have g: "get_prop asset' k
             = map_option (\<lambda>v. read_back e (sort_keys v))
                 (if k = ''Owner'' then Some (JStr newOwner) else get_prop asset k)" for k
    using get_prop_decoded[OF d' r, of k] by (simp only: get_prop_set_prop)
  have 2: "get_prop asset' ''Owner'' = Some (JStr newOwner)"
    by (simp add: g)
  have 3: "\<forall>k. k \<noteq> ''Owner'' \<longrightarrow>
             get_prop asset' k = map_option (\<lambda>v. read_back e (sort_keys v)) (get_prop asset k)"
    by (simp add: g)
  have 5: "\<forall>k. k \<noteq> ''Owner'' \<longrightarrow>
             map_option (encode (js e)) (get_prop asset' k)
               = map_option (encode (js e)) (get_prop asset k)"
  proof (intro allI impI)
    fix k assume k: "k \<noteq> ''Owner''"
    show "map_option (encode (js e)) (get_prop asset' k)
            = map_option (encode (js e)) (get_prop asset k)"
    proof (cases "get_prop asset k")
      case None
      with k show ?thesis by (simp add: g)
    next
      case (Some v)
      then have "(k, v) \<in> set asset" by (simp add: get_prop_def map_of_SomeD)
      with w have "distinct_keys v" by auto
      from encode_decoded[OF this, of e] k Some show ?thesis by (simp add: g)
    qed
  qed
  have 4: "\<forall>k v. k \<noteq> ''Owner'' \<longrightarrow> get_prop asset k = Some v \<longrightarrow> finite_nums e v \<longrightarrow>
             map_option as_mapping (get_prop asset' k) = Some (as_mapping v)"
  proof (intro allI impI)
    fix k v assume k: "k \<noteq> ''Owner''" and v: "get_prop asset k = Some v" and f: "finite_nums e v"
    from v have "(k, v) \<in> set asset" by (simp add: get_prop_def map_of_SomeD)
    with w have "distinct_keys v" by auto
    from as_mapping_decoded[OF this f] k v
    show "map_option as_mapping (get_prop asset' k) = Some (as_mapping v)" by (simp add: g)
  qed
  from 1 2 3 5 4
  show "\<exists>asset'.
            JSON_parse (js e) (getState (snd (TransferAsset (js e) ctx id' newOwner)) id')
              = Some (JObj asset')
          \<and> get_prop asset' ''Owner'' = Some (JStr newOwner)
          \<and> (\<forall>k. k \<noteq> ''Owner'' \<longrightarrow>
                get_prop asset' k = map_option (\<lambda>v. read_back e (sort_keys v)) (get_prop asset k))
          \<and> (\<forall>k. k \<noteq> ''Owner'' \<longrightarrow>
                map_option (encode (js e)) (get_prop asset' k)
                  = map_option (encode (js e)) (get_prop asset k))
          \<and> (\<forall>k v. k \<noteq> ''Owner'' \<longrightarrow> get_prop asset k = Some v \<longrightarrow> finite_nums e v \<longrightarrow>
                map_option as_mapping (get_prop asset' k) = Some (as_mapping v))"
    by blast
qed

text \<open>
  The example of the specification on the ledger \<^verbatim>\<open>InitLedger\<close> leaves: \<^verbatim>\<open>asset2\<close> belongs to
  Brad and is transferred to Carol; \<^verbatim>\<open>nope\<close> is absent.
\<close>

theorem TransferAsset_semantics_witness:
  \<open>reads_back_numbers integers
   \<and> \<not> AssetExists (snd (InitLedger (js integers) [])) ''nope''
   \<and> TransferAsset (js integers) (snd (InitLedger (js integers) [])) ''nope'' ''Carol''
       = (Inl (NotFound ''nope''), snd (InitLedger (js integers) []))
   \<and> JSON_parse (js integers) (getState (snd (InitLedger (js integers) [])) ''asset2'')
       = Some (JObj [(''AppraisedValue'', JNum (IntNum 400)), (''Color'', JStr ''red''),
                     (''ID'', JStr ''asset2''), (''Owner'', JStr ''Brad''),
                     (''Size'', JNum (IntNum 5)), (''docType'', JStr ''asset'')])
   \<and> fst (TransferAsset (js integers) (snd (InitLedger (js integers) [])) ''asset2'' ''Carol'')
       = Inr (Some (JStr ''Brad''))
   \<and> getState (snd (TransferAsset (js integers) (snd (InitLedger (js integers) [])) ''asset2'' ''Carol''))
         ''asset2''
       = ''{"AppraisedValue":400,"Color":"red","ID":"asset2","Owner":"Carol","Size":5,"docType":"asset"}''
   \<and> (\<exists>asset'.
          JSON_parse (js integers)
            (getState (snd (TransferAsset (js integers) (snd (InitLedger (js integers) [])) ''asset2'' ''Carol''))
               ''asset2'')
            = Some (JObj asset')
        \<and> get_prop asset' ''Owner'' = Some (JStr ''Carol'')
        \<and> get_prop asset' ''Color'' = Some (JStr ''red'')
        \<and> get_prop asset' ''docType'' = Some (JStr ''asset''))\<close>
proof -
  let ?asset = "[(''AppraisedValue'', JNum (IntNum 400)), (''Color'', JStr ''red''),
                 (''ID'', JStr ''asset2''), (''Owner'', JStr ''Brad''),
                 (''Size'', JNum (IntNum 5)), (''docType'', JStr ''asset'')]"
  have a: "\<not> AssetExists (snd (InitLedger (js integers) [])) ''nope''" by code_simp
  have p: "JSON_parse (js integers) (getState (snd (InitLedger (js integers) [])) ''asset2'')
             = Some (JObj ?asset)"
    by code_simp
  have o: "get_prop ?asset ''Owner'' = Some (JStr ''Brad'')" by (simp add: get_prop_def)
  have s: \<open>encode (js integers) (JObj (set_prop ?asset ''Owner'' (JStr ''Carol'')))
       = ''{"AppraisedValue":400,"Color":"red","ID":"asset2","Owner":"Carol","Size":5,"docType":"asset"}''\<close>
    by code_simp
  note t = TransferAsset_semantics[OF reads_back_integers,
      of "snd (InitLedger (js integers) [])" _ "''Carol''"]
  note t1 = t[of "''nope''", THEN conjunct1, rule_format, OF a]
  note t2 = t[of "''asset2''" ?asset, THEN conjunct2, rule_format, OF p]
  from t2 have 1: "fst (TransferAsset (js integers) (snd (InitLedger (js integers) [])) ''asset2'' ''Carol'')
       = Inr (Some (JStr ''Brad''))"
    by (simp only: o)
  from t2 have 2: \<open>getState (snd (TransferAsset (js integers) (snd (InitLedger (js integers) [])) ''asset2'' ''Carol''))
         ''asset2''
       = ''{"AppraisedValue":400,"Color":"red","ID":"asset2","Owner":"Carol","Size":5,"docType":"asset"}''\<close>
    by (simp only: s)
  from t2 obtain asset' where
    d: "JSON_parse (js integers)
            (getState (snd (TransferAsset (js integers) (snd (InitLedger (js integers) [])) ''asset2'' ''Carol''))
               ''asset2'')
            = Some (JObj asset')"
    and ow: "get_prop asset' ''Owner'' = Some (JStr ''Carol'')"
    and ot: "\<forall>k. k \<noteq> ''Owner'' \<longrightarrow>
                get_prop asset' k = map_option (\<lambda>v. read_back integers (sort_keys v)) (get_prop ?asset k)"
    by blast
  from ot have c: "get_prop asset' ''Color'' = Some (JStr ''red'')"
    and dt: "get_prop asset' ''docType'' = Some (JStr ''asset'')"
    by (simp_all add: get_prop_def)
  from d ow c dt have 3: "\<exists>asset'.
          JSON_parse (js integers)
            (getState (snd (TransferAsset (js integers) (snd (InitLedger (js integers) [])) ''asset2'' ''Carol''))
               ''asset2'')
            = Some (JObj asset')
        \<and> get_prop asset' ''Owner'' = Some (JStr ''Carol'')
        \<and> get_prop asset' ''Color'' = Some (JStr ''red'')
        \<and> get_prop asset' ''docType'' = Some (JStr ''asset'')"
    by (intro exI[of _ asset'] conjI)
  show ?thesis
    by (intro conjI) (rule reads_back_integers, rule a, rule t1, rule p, rule 1, rule 2, rule 3)
qed

text \<open>
  Claim C10 (\<open>docType\<close> under update and transfer). For an asset whose stored record has a
  \<open>docType\<close> field, \<^verbatim>\<open>UpdateAsset\<close> succeeds and leaves a record with the five fields \<open>ID\<close>,
  \<open>Color\<close>, \<open>Size\<close>, \<open>Owner\<close>, \<open>AppraisedValue\<close> and no other, while the record \<^verbatim>\<open>TransferAsset\<close>
  leaves still has \<open>docType\<close>: the value it had, read back from its canonical text, with the
  canonical encoding it had, and the same value when its numbers are finite (a string, as
  \<^verbatim>\<open>InitLedger\<close> writes, has none).
\<close>

theorem UpdateAsset_drops_docType:
  assumes e: "reads_back_numbers e"
    and p: "JSON_parse (js e) (getState ctx id') = Some (JObj asset)"
    and dt: "get_prop asset ''docType'' = Some d"
  shows "fst (UpdateAsset (js e) ctx id' color size' owner appraisedValue) = Inr ()
       \<and> JSON_parse (js e) (getState (snd (UpdateAsset (js e) ctx id' color size' owner appraisedValue)) id')
           = Some (JObj [(''AppraisedValue'', JStr appraisedValue), (''Color'', JStr color),
                         (''ID'', JStr id'), (''Owner'', JStr owner), (''Size'', JStr size')])
       \<and> get_prop [(''AppraisedValue'', JStr appraisedValue), (''Color'', JStr color),
                    (''ID'', JStr id'), (''Owner'', JStr owner), (''Size'', JStr size')] ''docType'' = None
       \<and> (\<exists>asset'. JSON_parse (js e) (getState (snd (TransferAsset (js e) ctx id' newOwner)) id')
                      = Some (JObj asset')
             \<and> get_prop asset' ''docType'' = Some (read_back e (sort_keys d))
             \<and> encode (js e) (read_back e (sort_keys d)) = encode (js e) d
             \<and> (finite_nums e d \<longrightarrow> as_mapping (read_back e (sort_keys d)) = as_mapping d))"
proof (intro conjI)
  from p have p': "parse_json e (getState ctx id') = Some (JObj asset)" by simp
  note x = parsed_exists[OF p']
  from x show "fst (UpdateAsset (js e) ctx id' color size' owner appraisedValue) = Inr ()"
    by (simp add: UpdateAsset_def Let_def)
  from decoded_asset_literal[OF e, of id' color "JStr size'" owner "JStr appraisedValue"]
    getState_UpdateAsset[OF x, of "js e" color size' owner appraisedValue]
  show "JSON_parse (js e) (getState (snd (UpdateAsset (js e) ctx id' color size' owner appraisedValue)) id')
           = Some (JObj [(''AppraisedValue'', JStr appraisedValue), (''Color'', JStr color),
                         (''ID'', JStr id'), (''Owner'', JStr owner), (''Size'', JStr size')])"
    by simp
  show "get_prop [(''AppraisedValue'', JStr appraisedValue), (''Color'', JStr color),
                    (''ID'', JStr id'), (''Owner'', JStr owner), (''Size'', JStr size')] ''docType'' = None"
    by (simp add: get_prop_def)
  note dk = parse_json_JObj_wf(1)[OF p'] and w = parse_json_JObj_wf(2)[OF p']
  let ?set = "set_prop asset ''Owner'' (JStr newOwner)"
  have d': "distinct (map fst ?set)" by (rule distinct_set_prop[OF dk])
  obtain asset' where r: "read_back e (sort_keys (JObj ?set)) = JObj asset'" by simp
  have 1: "JSON_parse (js e) (getState (snd (TransferAsset (js e) ctx id' newOwner)) id')
              = Some (JObj asset')"
    using TransferAsset_decoded[OF e p', of newOwner] r by (simp only: js_simps)
  from get_prop_decoded[OF d' r, of "''docType''"] dt
  have 2: "get_prop asset' ''docType'' = Some (read_back e (sort_keys d))"
    by (simp add: get_prop_set_prop)
  from dt have "(''docType'', d) \<in> set asset" by (simp add: get_prop_def map_of_SomeD)
  with w have dd: "distinct_keys d" by auto
  then have 3: "finite_nums e d \<longrightarrow> as_mapping (read_back e (sort_keys d)) = as_mapping d"
    by (simp add: as_mapping_decoded)
  note 4 = encode_decoded[OF dd, of e]
  from 1 2 4 3
  show "\<exists>asset'. JSON_parse (js e) (getState (snd (TransferAsset (js e) ctx id' newOwner)) id')
                      = Some (JObj asset')
             \<and> get_prop asset' ''docType'' = Some (read_back e (sort_keys d))
             \<and> encode (js e) (read_back e (sort_keys d)) = encode (js e) d
             \<and> (finite_nums e d \<longrightarrow> as_mapping (read_back e (sort_keys d)) = as_mapping d)"
    by blast
qed

text \<open>\<^verbatim>\<open>asset1\<close> as \<^verbatim>\<open>InitLedger\<close> wrote it, updated and, instead, transferred.\<close>

theorem UpdateAsset_drops_docType_witness:
  \<open>reads_back_numbers integers
   \<and> JSON_parse (js integers) (getState (snd (InitLedger (js integers) [])) ''asset1'')
     = Some (JObj [(''AppraisedValue'', JNum (IntNum 300)), (''Color'', JStr ''blue''),
                   (''ID'', JStr ''asset1''), (''Owner'', JStr ''Tomoko''),
                   (''Size'', JNum (IntNum 5)), (''docType'', JStr ''asset'')])
   \<and> get_prop [(''AppraisedValue'', JNum (IntNum 300)), (''Color'', JStr ''blue''),
                (''ID'', JStr ''asset1''), (''Owner'', JStr ''Tomoko''),
                (''Size'', JNum (IntNum 5)), (''docType'', JStr ''asset'')] ''docType''
       = Some (JStr ''asset'')
   \<and> fst (UpdateAsset (js integers) (snd (InitLedger (js integers) [])) ''asset1'' ''red'' ''7'' ''Brad'' ''900'')
       = Inr ()
   \<and> JSON_parse (js integers)
        (getState (snd (UpdateAsset (js integers) (snd (InitLedger (js integers) []))
                          ''asset1'' ''red'' ''7'' ''Brad'' ''900'')) ''asset1'')
       = Some (JObj [(''AppraisedValue'', JStr ''900''), (''Color'', JStr ''red''),
                     (''ID'', JStr ''asset1''), (''Owner'', JStr ''Brad''), (''Size'', JStr ''7'')])
   \<and> (\<exists>asset'. JSON_parse (js integers)
                   (getState (snd (TransferAsset (js integers) (snd (InitLedger (js integers) []))
                                     ''asset1'' ''Carol'')) ''asset1'')
                  = Some (JObj asset')
          \<and> get_prop asset' ''docType'' = Some (JStr ''asset''))\<close>
proof -
  have p: \<open>JSON_parse (js integers) (getState (snd (InitLedger (js integers) [])) ''asset1'')
     = Some (JObj [(''AppraisedValue'', JNum (IntNum 300)), (''Color'', JStr ''blue''),
                   (''ID'', JStr ''asset1''), (''Owner'', JStr ''Tomoko''),
                   (''Size'', JNum (IntNum 5)), (''docType'', JStr ''asset'')])\<close>
    by code_simp
  have dt: \<open>get_prop [(''AppraisedValue'', JNum (IntNum 300)), (''Color'', JStr ''blue''),
                (''ID'', JStr ''asset1''), (''Owner'', JStr ''Tomoko''),
                (''Size'', JNum (IntNum 5)), (''docType'', JStr ''asset'')] ''docType''
       = Some (JStr ''asset'')\<close>
    by (simp add: get_prop_def)
  note t = UpdateAsset_drops_docType[OF reads_back_integers p dt,
      of "''red''" "''7''" "''Brad''" "''900''" "''Carol''"]
  from t have 4: \<open>\<exists>asset'. JSON_parse (js integers)
                   (getState (snd (TransferAsset (js integers) (snd (InitLedger (js integers) []))
                                     ''asset1'' ''Carol'')) ''asset1'')
                  = Some (JObj asset')
          \<and> get_prop asset' ''docType'' = Some (JStr ''asset'')\<close>
    by (simp only: sort_keys.simps read_back.simps) blast
  show ?thesis
    by (intro conjI)
       (rule reads_back_integers, rule p, rule dt, rule t[THEN conjunct1],
        rule t[THEN conjunct2, THEN conjunct1], rule 4)
qed

text \<open>
  Claim C5 (full listing after bulk initialisation). From the empty store, \<^verbatim>\<open>InitLedger\<close>
  and then \<^verbatim>\<open>GetAllAssets\<close> return the text below: six records, those of \<^verbatim>\<open>asset1\<close> to \<^verbatim>\<open>asset6\<close>
  in this order, each with \<open>docType\<close> \<^verbatim>\<open>"asset"\<close>. The order is that of the keys in the store.
\<close>

theorem GetAllAssets_after_InitLedger:
  \<open>map fst (snd (InitLedger (js integers) []))
     = [''asset1'', ''asset2'', ''asset3'', ''asset4'', ''asset5'', ''asset6'']
   \<and> fst (GetAllAssets (js integers) (snd (InitLedger (js integers) []))) = Inr (
        ''[{"AppraisedValue":300,"Color":"blue","ID":"asset1","Owner":"Tomoko","Size":5,"docType":"asset"},'' @
        ''{"AppraisedValue":400,"Color":"red","ID":"asset2","Owner":"Brad","Size":5,"docType":"asset"},'' @
        ''{"AppraisedValue":500,"Color":"green","ID":"asset3","Owner":"Jin Soo","Size":10,"docType":"asset"},'' @
        ''{"AppraisedValue":600,"Color":"yellow","ID":"asset4","Owner":"Max","Size":10,"docType":"asset"},'' @
        ''{"AppraisedValue":700,"Color":"black","ID":"asset5","Owner":"Adriana","Size":15,"docType":"asset"},'' @
        ''{"AppraisedValue":800,"Color":"white","ID":"asset6","Owner":"Michel","Size":15,"docType":"asset"}]'')
   \<and> JSON_parse (js integers) (
        ''[{"AppraisedValue":300,"Color":"blue","ID":"asset1","Owner":"Tomoko","Size":5,"docType":"asset"},'' @
        ''{"AppraisedValue":400,"Color":"red","ID":"asset2","Owner":"Brad","Size":5,"docType":"asset"},'' @
        ''{"AppraisedValue":500,"Color":"green","ID":"asset3","Owner":"Jin Soo","Size":10,"docType":"asset"},'' @
        ''{"AppraisedValue":600,"Color":"yellow","ID":"asset4","Owner":"Max","Size":10,"docType":"asset"},'' @
        ''{"AppraisedValue":700,"Color":"black","ID":"asset5","Owner":"Adriana","Size":15,"docType":"asset"},'' @
        ''{"AppraisedValue":800,"Color":"white","ID":"asset6","Owner":"Michel","Size":15,"docType":"asset"}]'')
      = Some (JArr
         [JObj [(''AppraisedValue'', JNum (IntNum 300)), (''Color'', JStr ''blue''), (''ID'', JStr ''asset1''),
                (''Owner'', JStr ''Tomoko''), (''Size'', JNum (IntNum 5)), (''docType'', JStr ''asset'')],
          JObj [(''AppraisedValue'', JNum (IntNum 400)), (''Color'', JStr ''red''), (''ID'', JStr ''asset2''),
                (''Owner'', JStr ''Brad''), (''Size'', JNum (IntNum 5)), (''docType'', JStr ''asset'')],
          JObj [(''AppraisedValue'', JNum (IntNum 500)), (''Color'', JStr ''green''), (''ID'', JStr ''asset3''),
                (''Owner'', JStr ''Jin Soo''), (''Size'', JNum (IntNum 10)), (''docType'', JStr ''asset'')],
          JObj [(''AppraisedValue'', JNum (IntNum 600)), (''Color'', JStr ''yellow''), (''ID'', JStr ''asset4''),
                (''Owner'', JStr ''Max''), (''Size'', JNum (IntNum 10)), (''docType'', JStr ''asset'')],
          JObj [(''AppraisedValue'', JNum (IntNum 700)), (''Color'', JStr ''black''), (''ID'', JStr ''asset5''),
                (''Owner'', JStr ''Adriana''), (''Size'', JNum (IntNum 15)), (''docType'', JStr ''asset'')],
          JObj [(''AppraisedValue'', JNum (IntNum 800)), (''Color'', JStr ''white''), (''ID'', JStr ''asset6''),
                (''Owner'', JStr ''Michel''), (''Size'', JNum (IntNum 15)), (''docType'', JStr ''asset'')]])\<close>
  by code_simp

end
